theory Spec2Isabelle
  imports Complex_Main "HOL-Library.Log_Nat"
begin

section \<open>IEEE-754 binary64 values and Python's float operations\<close>

text \<open>
  The script \<^verbatim>\<open>src/foundations/time/limits.py\<close> computes with Python floats, which are
  IEEE-754 binary64 numbers.  A float is modelled by its exact value: a finite double is the
  rational number it denotes, the two infinities and NaN are separate constructors.  The sign of
  a zero is not tracked (no operation of the script can observe it: Python raises on a division
  by either zero).  Every arithmetic operation computes the exact rational result and rounds it
  to the nearest double, ties to even, with 53 significant bits, gradual underflow below
  \<open>2\<^sup>-\<^sup>1\<^sup>0\<^sup>2\<^sup>2\<close> and overflow to infinity from \<open>2\<^sup>1\<^sup>0\<^sup>2\<^sup>4\<close> on.
\<close>

datatype pyfloat = Finite rat | Inf bool | NaN

datatype py_error = OverflowError | ValueError | ZeroDivisionError

text \<open>Round half to even, to an integer.\<close>

definition rne :: "rat \<Rightarrow> int" where
  "rne x = (let f = \<lfloor>x\<rfloor>; d = x - of_int f in
     if d < 1 / 2 then f else if 1 / 2 < d then f + 1 else if even f then f else f + 1)"

text \<open>The binary exponent of a positive rational: \<open>2 powi ilog2 x \<le> x < 2 powi (ilog2 x + 1)\<close>.\<close>

definition ilog2 :: "rat \<Rightarrow> int" where
  "ilog2 x = (if 1 \<le> x then bitlen \<lfloor>x\<rfloor> - 1 else - bitlen (\<lceil>1 / x\<rceil> - 1))"

text \<open>
  The exponent of the unit in the last place of the doubles around \<open>x\<close>: 52 below the binary
  exponent for a normal number, \<open>-1074\<close> in the subnormal range.
\<close>

definition quantum_exp :: "rat \<Rightarrow> int" where
  "quantum_exp x = max (ilog2 \<bar>x\<bar> - 52) (- 1074)"

definition quantum :: "rat \<Rightarrow> rat" where
  "quantum x = 2 powi quantum_exp x"

definition nearest :: "rat \<Rightarrow> rat" where
  "nearest x = (if x = 0 then 0 else of_int (rne (x / quantum x)) * quantum x)"

definition round_double :: "rat \<Rightarrow> pyfloat" where
  "round_double x = (let v = nearest x in if 2 ^ 1024 \<le> \<bar>v\<bar> then Inf (v < 0) else Finite v)"

text \<open>A rational is (the value of) a finite double when rounding leaves it unchanged.\<close>

definition is_double :: "rat \<Rightarrow> bool" where
  "is_double x \<longleftrightarrow> round_double x = Finite x"

text \<open>A decimal float literal denotes the nearest double.\<close>

definition literal :: "rat \<Rightarrow> pyfloat" where
  "literal q = round_double q"

text \<open>\<^verbatim>\<open>sys.float_info.epsilon\<close>: the difference between 1.0 and the next double.\<close>

definition epsilon :: pyfloat where
  "epsilon = Finite (1 / 2 ^ 52)"

fun fadd :: "pyfloat \<Rightarrow> pyfloat \<Rightarrow> pyfloat" where
  "fadd (Finite a) (Finite b) = round_double (a + b)"
| "fadd NaN _ = NaN"
| "fadd _ NaN = NaN"
| "fadd (Inf s) (Inf t) = (if s = t then Inf s else NaN)"
| "fadd (Inf s) (Finite _) = Inf s"
| "fadd (Finite _) (Inf t) = Inf t"

fun fneg :: "pyfloat \<Rightarrow> pyfloat" where
  "fneg (Finite a) = Finite (- a)"
| "fneg (Inf s) = Inf (\<not> s)"
| "fneg NaN = NaN"

definition fsub :: "pyfloat \<Rightarrow> pyfloat \<Rightarrow> pyfloat" where
  "fsub x y = fadd x (fneg y)"

fun fmul :: "pyfloat \<Rightarrow> pyfloat \<Rightarrow> pyfloat" where
  "fmul (Finite a) (Finite b) = round_double (a * b)"
| "fmul NaN _ = NaN"
| "fmul _ NaN = NaN"
| "fmul (Inf s) (Inf t) = Inf (s \<noteq> t)"
| "fmul (Inf s) (Finite b) = (if b = 0 then NaN else Inf (s \<noteq> (b < 0)))"
| "fmul (Finite a) (Inf t) = (if a = 0 then NaN else Inf ((a < 0) \<noteq> t))"

text \<open>Python's \<^verbatim>\<open>/\<close> on floats raises \<^verbatim>\<open>ZeroDivisionError\<close> on a zero divisor.\<close>

fun fdiv :: "pyfloat \<Rightarrow> pyfloat \<Rightarrow> py_error + pyfloat" where
  "fdiv x (Finite b) =
     (if b = 0 then Inl ZeroDivisionError
      else case x of
        Finite a \<Rightarrow> Inr (round_double (a / b))
      | Inf s \<Rightarrow> Inr (Inf (s \<noteq> (b < 0)))
      | NaN \<Rightarrow> Inr NaN)"
| "fdiv NaN _ = Inr NaN"
| "fdiv _ NaN = Inr NaN"
| "fdiv (Inf _) (Inf _) = Inr NaN"
| "fdiv (Finite _) (Inf _) = Inr (Finite 0)"

text \<open>
  \<^verbatim>\<open>int(x)\<close> truncates towards zero; it raises \<^verbatim>\<open>OverflowError\<close> on an infinity and
  \<^verbatim>\<open>ValueError\<close> on NaN.
\<close>

fun to_int :: "pyfloat \<Rightarrow> py_error + int" where
  "to_int (Finite a) = Inr (if 0 \<le> a then \<lfloor>a\<rfloor> else \<lceil>a\<rceil>)"
| "to_int (Inf _) = Inl OverflowError"
| "to_int NaN = Inl ValueError"

text \<open>
  In a mixed product \<^verbatim>\<open>n * x\<close> or \<^verbatim>\<open>x * n\<close> the integer is first converted to the nearest
  double; the conversion raises \<^verbatim>\<open>OverflowError\<close> when the integer is out of range.
\<close>

definition int_to_float :: "int \<Rightarrow> py_error + pyfloat" where
  "int_to_float n = (case round_double (of_int n) of Inf _ \<Rightarrow> Inl OverflowError | v \<Rightarrow> Inr v)"

definition and_then :: "py_error + 'a \<Rightarrow> ('a \<Rightarrow> py_error + 'b) \<Rightarrow> py_error + 'b" where
  "and_then r f = (case r of Inl e \<Rightarrow> Inl e | Inr v \<Rightarrow> f v)"

definition fmul_int :: "pyfloat \<Rightarrow> int \<Rightarrow> py_error + pyfloat" where
  "fmul_int x n = and_then (int_to_float n) (\<lambda>y. Inr (fmul x y))"

definition int_fmul :: "int \<Rightarrow> pyfloat \<Rightarrow> py_error + pyfloat" where
  "int_fmul n x = and_then (int_to_float n) (\<lambda>y. Inr (fmul y x))"


section \<open>The precision-bound solver (lines 14 to 22)\<close>

text \<open>\<^verbatim>\<open>max_time_seconds = 0.01 * (2 ** 52)\<close>\<close>

definition max_time_seconds :: "py_error + pyfloat" where
  "max_time_seconds = fmul_int (literal (1 / 100)) (2 ^ 52)"

text \<open>
  \<^verbatim>\<open>next_value = max_time_seconds + max_time_seconds * sys.float_info.epsilon\<close> and
  \<^verbatim>\<open>spacing = next_value - max_time_seconds\<close>, as functions of the value they measure.
\<close>

definition next_value_at :: "pyfloat \<Rightarrow> pyfloat" where
  "next_value_at x = fadd x (fmul x epsilon)"

definition spacing_at :: "pyfloat \<Rightarrow> pyfloat" where
  "spacing_at x = fsub (next_value_at x) x"

definition next_value :: "py_error + pyfloat" where
  "next_value = and_then max_time_seconds (\<lambda>x. Inr (next_value_at x))"

definition spacing :: "py_error + pyfloat" where
  "spacing = and_then max_time_seconds (\<lambda>x. Inr (spacing_at x))"


section \<open>The duration formatter (lines 26 to 45)\<close>

definition seconds_per_minute :: pyfloat where
  "seconds_per_minute = literal 60"

definition seconds_per_hour :: pyfloat where
  "seconds_per_hour = fmul (literal 60) seconds_per_minute"

definition seconds_per_day :: pyfloat where
  "seconds_per_day = fmul (literal 24) seconds_per_hour"

definition seconds_per_year :: pyfloat where
  "seconds_per_year = fmul (literal (36525 / 100)) seconds_per_day"

record breakdown =
  years :: int
  days :: int
  hours :: int
  minutes :: int
  seconds :: pyfloat

text \<open>
  One extraction, as lines 33-34 (and 36-37, 39-40, 42-43) have it:
  \<^verbatim>\<open>count = int(remaining / per); remaining -= count * per\<close>.
\<close>

definition extract_unit :: "pyfloat \<Rightarrow> pyfloat \<Rightarrow> py_error + int \<times> pyfloat" where
  "extract_unit remaining per =
     and_then (fdiv remaining per) (\<lambda>q.
     and_then (to_int q) (\<lambda>n.
     and_then (int_fmul n per) (\<lambda>p.
     Inr (n, fsub remaining p))))"

text \<open>
  Lines 31 to 45, as a function of the value that line 31 assigns to \<^verbatim>\<open>remaining\<close>: the four
  counts, each with the value of \<^verbatim>\<open>remaining\<close> after its subtraction (lines 34, 37, 40, 43).
\<close>

definition formatter_steps ::
  "pyfloat \<Rightarrow> py_error + (int \<times> pyfloat) \<times> (int \<times> pyfloat) \<times> (int \<times> pyfloat) \<times> (int \<times> pyfloat)" where
  "formatter_steps remaining0 =
     and_then (extract_unit remaining0 seconds_per_year) (\<lambda>(y, remaining1).
     and_then (extract_unit remaining1 seconds_per_day) (\<lambda>(d, remaining2).
     and_then (extract_unit remaining2 seconds_per_hour) (\<lambda>(h, remaining3).
     and_then (extract_unit remaining3 seconds_per_minute) (\<lambda>(m, remaining4).
     Inr ((y, remaining1), (d, remaining2), (h, remaining3), (m, remaining4))))))"

text \<open>Line 45, \<^verbatim>\<open>seconds = remaining\<close>, and the five values that line 48 prints.\<close>

definition format_duration :: "pyfloat \<Rightarrow> py_error + breakdown" where
  "format_duration remaining0 =
     and_then (formatter_steps remaining0) (\<lambda>((y, _), (d, _), (h, _), (m, remaining4)).
     Inr \<lparr>years = y, days = d, hours = h, minutes = m, seconds = remaining4\<rparr>)"

text \<open>The script formats the solver's result.\<close>

definition formatted :: "py_error + breakdown" where
  "formatted = and_then max_time_seconds format_duration"

section \<open>The formatter of the specification\<close>

text \<open>
  The specification's contract, in its own words and over exact numbers: each step computes
  \<open>unit_count = floor(remaining / divisor)\<close> and then subtracts \<open>unit_count \<times> divisor\<close> from
  \<open>remaining\<close>; the divisors are \<open>365.25 \<times> 86400\<close>, \<open>86400\<close>, \<open>3600\<close> and \<open>60\<close>, in this
  order, and the final remainder is the seconds component.
\<close>

definition floor_extract :: "rat \<Rightarrow> rat \<Rightarrow> int \<times> rat" where
  "floor_extract remaining divisor =
     (let unit_count = \<lfloor>remaining / divisor\<rfloor>
      in (unit_count, remaining - of_int unit_count * divisor))"

definition spec_steps :: "rat \<Rightarrow> (int \<times> rat) \<times> (int \<times> rat) \<times> (int \<times> rat) \<times> (int \<times> rat)" where
  "spec_steps remaining0 =
     (case floor_extract remaining0 (36525 / 100 * 86400) of (y, remaining1) \<Rightarrow>
      case floor_extract remaining1 86400 of (d, remaining2) \<Rightarrow>
      case floor_extract remaining2 3600 of (h, remaining3) \<Rightarrow>
      case floor_extract remaining3 60 of (m, remaining4) \<Rightarrow>
      ((y, remaining1), (d, remaining2), (h, remaining3), (m, remaining4)))"

definition spec_breakdown :: "rat \<Rightarrow> breakdown" where
  "spec_breakdown remaining0 =
     (case spec_steps remaining0 of ((y, _), (d, _), (h, _), (m, remaining4)) \<Rightarrow>
      \<lparr>years = y, days = d, hours = h, minutes = m, seconds = Finite remaining4\<rparr>)"

text \<open>The steps of the specification as values of the program.\<close>

definition as_steps ::
  "(int \<times> rat) \<times> (int \<times> rat) \<times> (int \<times> rat) \<times> (int \<times> rat) \<Rightarrow>
   (int \<times> pyfloat) \<times> (int \<times> pyfloat) \<times> (int \<times> pyfloat) \<times> (int \<times> pyfloat)" where
  "as_steps s = (case s of ((y, r1), (d, r2), (h, r3), (m, r4)) \<Rightarrow>
     ((y, Finite r1), (d, Finite r2), (h, Finite r3), (m, Finite r4)))"


section \<open>Properties of a result\<close>

text \<open>A property holds of a computation when it returns a value that has the property.\<close>

definition holds :: "('a \<Rightarrow> bool) \<Rightarrow> py_error + 'a \<Rightarrow> bool" where
  "holds P res = (case res of Inl _ \<Rightarrow> False | Inr v \<Rightarrow> P v)"

fun nonneg :: "pyfloat \<Rightarrow> bool" where
  "nonneg (Finite a) = (0 \<le> a)"
| "nonneg (Inf s) = (\<not> s)"
| "nonneg NaN = False"

fun below :: "rat \<Rightarrow> pyfloat \<Rightarrow> bool" where
  "below c (Finite a) = (a < c)"
| "below c (Inf s) = s"
| "below c NaN = False"

text \<open>The value of \<^verbatim>\<open>remaining\<close> is nonnegative after each of the four subtractions.\<close>

definition remainders_nonneg ::
  "(int \<times> pyfloat) \<times> (int \<times> pyfloat) \<times> (int \<times> pyfloat) \<times> (int \<times> pyfloat) \<Rightarrow> bool" where
  "remainders_nonneg s = (case s of ((_, r1), (_, r2), (_, r3), (_, r4)) \<Rightarrow>
     nonneg r1 \<and> nonneg r2 \<and> nonneg r3 \<and> nonneg r4)"

definition in_unit_ranges :: "breakdown \<Rightarrow> bool" where
  "in_unit_ranges b \<longleftrightarrow>
     days b \<le> 365 \<and> hours b \<le> 23 \<and> minutes b \<le> 59 \<and> below 60 (seconds b)"

text \<open>
  The reconstruction \<open>years \<times> 31557600 + days \<times> 86400 + hours \<times> 3600 + minutes \<times> 60 + seconds\<close>
  as an exact number (there is none when the seconds component is not finite), and as Python
  evaluates the same expression on floats, from left to right.
\<close>

definition reconstruct :: "breakdown \<Rightarrow> rat option" where
  "reconstruct b = (case seconds b of
     Finite s \<Rightarrow> Some (of_int (years b) * 31557600 + of_int (days b) * 86400
                       + of_int (hours b) * 3600 + of_int (minutes b) * 60 + s)
   | _ \<Rightarrow> None)"

definition reconstruct_float :: "breakdown \<Rightarrow> py_error + pyfloat" where
  "reconstruct_float b =
     and_then (int_fmul (years b) (literal 31557600)) (\<lambda>ys.
     and_then (int_fmul (days b) (literal 86400)) (\<lambda>ds.
     and_then (int_fmul (hours b) (literal 3600)) (\<lambda>hs.
     and_then (int_fmul (minutes b) (literal 60)) (\<lambda>ms.
     Inr (fadd (fadd (fadd (fadd ys ds) hs) ms) (seconds b))))))"

definition within_tolerance :: "rat \<Rightarrow> rat \<Rightarrow> rat option \<Rightarrow> bool" where
  "within_tolerance tol r x = (case x of None \<Rightarrow> False | Some v \<Rightarrow> \<bar>v - r\<bar> \<le> tol)"

fun float_within :: "rat \<Rightarrow> rat \<Rightarrow> pyfloat \<Rightarrow> bool" where
  "float_within tol r (Finite v) = (\<bar>v - r\<bar> \<le> tol)"
| "float_within tol r (Inf _) = False"
| "float_within tol r NaN = False"

text \<open>Python's comparisons \<^verbatim>\<open><=\<close> and \<^verbatim>\<open><\<close> on floats (a comparison with NaN is false).\<close>

fun fle :: "pyfloat \<Rightarrow> pyfloat \<Rightarrow> bool" where
  "fle (Finite a) (Finite b) = (a \<le> b)"
| "fle NaN _ = False"
| "fle _ NaN = False"
| "fle (Inf s) (Inf t) = (if s then True else \<not> t)"
| "fle (Inf s) (Finite _) = s"
| "fle (Finite _) (Inf t) = (\<not> t)"

fun flt :: "pyfloat \<Rightarrow> pyfloat \<Rightarrow> bool" where
  "flt (Finite a) (Finite b) = (a < b)"
| "flt NaN _ = False"
| "flt _ NaN = False"
| "flt (Inf s) (Inf t) = (if s then \<not> t else False)"
| "flt (Inf s) (Finite _) = s"
| "flt (Finite _) (Inf t) = (\<not> t)"


section \<open>Properties of rounding\<close>

subsection \<open>Rounding to an integer and the binary exponent\<close>

lemma rne_of_int: "rne (of_int n) = n"
  by (simp add: rne_def)

lemma rne_cases:
  "rne x = \<lfloor>x\<rfloor> \<or> rne x = \<lfloor>x\<rfloor> + 1"
  by (simp add: rne_def Let_def)

lemma rne_le: "x \<le> of_int M \<Longrightarrow> rne x \<le> M"
proof -
  assume a: "x \<le> of_int M"
  show ?thesis
  proof (cases "x = of_int M")
    case True then show ?thesis by (simp add: rne_of_int)
  next
    case False
    with a have "x < of_int M" by simp
    then have "\<lfloor>x\<rfloor> < M" by (simp add: floor_less_iff)
    then show ?thesis using rne_cases [of x] by auto
  qed
qed

lemma rne_ge: "of_int M \<le> x \<Longrightarrow> M \<le> rne x"
proof -
  assume "of_int M \<le> x"
  then have "M \<le> \<lfloor>x\<rfloor>" by (simp add: le_floor_iff)
  then show ?thesis using rne_cases [of x] by auto
qed

lemma rne_err: "\<bar>of_int (rne x) - x\<bar> \<le> 1 / 2"
proof -
  have "of_int \<lfloor>x\<rfloor> \<le> x" "x < of_int \<lfloor>x\<rfloor> + 1" by linarith+
  then show ?thesis
    by (auto simp: rne_def Let_def)
qed

lemma rne_eqI: "\<bar>x - of_int m\<bar> < 1 / 2 \<Longrightarrow> rne x = m"
proof -
  assume a: "\<bar>x - of_int m\<bar> < 1 / 2"
  have "\<bar>of_int (rne x) - x\<bar> \<le> 1 / 2" by (rule rne_err)
  with a have "\<bar>(of_int (rne x) :: rat) - of_int m\<bar> < 1" by linarith
  then have "\<bar>(of_int (rne x - m) :: rat)\<bar> < 1" by simp
  then have "\<bar>rne x - m\<bar> < 1" by (metis of_int_abs of_int_less_1_iff)
  then show ?thesis by simp
qed

lemma rne_lt: "x < of_int M - 1 / 2 \<Longrightarrow> rne x < M"
proof -
  assume a: "x < of_int M - 1 / 2"
  have "\<bar>of_int (rne x) - x\<bar> \<le> 1 / 2" by (rule rne_err)
  with a have "(of_int (rne x) :: rat) < of_int M" by linarith
  then show ?thesis by simp
qed

lemma ilog2_bounds:
  assumes "0 < x"
  shows "2 powi ilog2 x \<le> x \<and> x < 2 powi (ilog2 x + 1)"
proof (cases "1 \<le> x")
  case True
  define n where "n = \<lfloor>x\<rfloor>"
  have n: "0 < n" using True by (simp add: n_def)
  have b: "2 ^ nat (bitlen n - 1) \<le> n" "n < 2 ^ nat (bitlen n)"
    using bitlen_bounds [OF n] by auto
  have b1: "1 \<le> bitlen n" using n bitlen_eq_zero_iff [of n] bitlen_nonneg [of n] by linarith
  have e: "ilog2 x = bitlen n - 1" using True by (simp add: ilog2_def n_def)
  have "(2::rat) powi (bitlen n - 1) = of_int (2 ^ nat (bitlen n - 1))"
    using b1 by (simp add: power_int_nonneg_exp)
  also have "\<dots> \<le> of_int n" using b(1) by (simp only: of_int_le_iff)
  also have "\<dots> \<le> x" by (simp add: n_def)
  finally have lo: "2 powi ilog2 x \<le> x" by (simp add: e)
  have "x < of_int (n + 1)" by (simp add: n_def) linarith
  also have "\<dots> \<le> of_int (2 ^ nat (bitlen n))" using b(2) by (metis of_int_le_iff zless_imp_add1_zle)
  also have "\<dots> = 2 powi (bitlen n)" using b1 by (simp add: power_int_nonneg_exp)
  finally have "x < 2 powi (ilog2 x + 1)" by (simp add: e)
  with lo show ?thesis by simp
next
  case False
  then have x1: "x < 1" by simp
  define m where "m = \<lceil>1 / x\<rceil> - 1"
  have "1 < 1 / x" using assms x1 by simp
  then have "1 < \<lceil>1 / x\<rceil>" by (simp add: less_ceiling_iff)
  then have m: "0 < m" by (simp add: m_def)
  have b: "2 ^ nat (bitlen m - 1) \<le> m" "m < 2 ^ nat (bitlen m)"
    using bitlen_bounds [OF m] by auto
  have b1: "1 \<le> bitlen m" using m bitlen_eq_zero_iff [of m] bitlen_nonneg [of m] by linarith
  have e: "ilog2 x = - bitlen m" using False by (simp add: ilog2_def m_def)
  have "1 / x \<le> of_int (m + 1)" by (simp add: m_def)
  also have "\<dots> \<le> of_int (2 ^ nat (bitlen m))" using b(2) by (metis of_int_le_iff zless_imp_add1_zle)
  also have "\<dots> = 2 powi (bitlen m)" using b1 by (simp add: power_int_nonneg_exp)
  finally have "1 / x \<le> 2 powi (bitlen m)" .
  then have "1 \<le> 2 powi (bitlen m) * x" using assms by (simp add: field_simps)
  then have lo: "2 powi (- bitlen m) \<le> x"
    by (simp add: power_int_minus field_simps)
  have "(2::rat) powi (bitlen m - 1) = of_int (2 ^ nat (bitlen m - 1))"
    using b1 by (simp add: power_int_nonneg_exp)
  also have "\<dots> \<le> of_int m" using b(1) by (simp only: of_int_le_iff)
  also have "\<dots> < 1 / x" by (simp add: m_def) linarith
  finally have "2 powi (bitlen m - 1) < 1 / x" .
  then have "x < 1 / 2 powi (bitlen m - 1)" using assms by (simp add: field_simps)
  moreover have "- (bitlen m - 1) = - bitlen m + 1" by simp
  ultimately have "x < 2 powi (- bitlen m + 1)"
    using power_int_minus_divide [of "2::rat" "bitlen m - 1"] by (simp only:)
  with lo show ?thesis by (simp add: e)
qed

lemma pow2_less_iff: "(2::rat) powi a < 2 powi b \<longleftrightarrow> a < b"
proof
  assume l: "(2::rat) powi a < 2 powi b"
  show "a < b"
  proof (rule ccontr)
    assume "\<not> a < b"
    then have "b \<le> a" by simp
    then have "(2::rat) powi b \<le> 2 powi a" by (rule power_int_increasing) simp
    with l show False by simp
  qed
next
  assume "a < b"
  then show "(2::rat) powi a < 2 powi b" by (rule power_int_strict_increasing) simp
qed

lemma pow2_le_iff: "(2::rat) powi a \<le> 2 powi b \<longleftrightarrow> a \<le> b"
  using pow2_less_iff [of b a] by (simp add: not_less [symmetric])

lemma ilog2_eqI:
  assumes "2 powi k \<le> x" "x < 2 powi (k + 1)"
  shows "ilog2 x = k"
proof -
  have x: "0 < x" using assms(1) by (rule less_le_trans [rotated]) simp
  note b = ilog2_bounds [OF x]
  have "(2::rat) powi k < 2 powi (ilog2 x + 1)" using assms(1) b by linarith
  then have 1: "k < ilog2 x + 1" by (simp only: pow2_less_iff)
  have "(2::rat) powi ilog2 x < 2 powi (k + 1)" using assms(2) b by linarith
  then have 2: "ilog2 x < k + 1" by (simp only: pow2_less_iff)
  from 1 2 show ?thesis by simp
qed

subsection \<open>The quantum and the representable values\<close>

lemma ilog2_mono:
  assumes "0 < a" "a \<le> b"
  shows "ilog2 a \<le> ilog2 b"
proof -
  have b: "0 < b" using assms by simp
  have "2 powi ilog2 a \<le> a" using ilog2_bounds [OF assms(1)] by simp
  also have "a \<le> b" by fact
  also have "b < 2 powi (ilog2 b + 1)" using ilog2_bounds [OF b] by simp
  finally have "ilog2 a < ilog2 b + 1" by (simp only: pow2_less_iff)
  then show ?thesis by simp
qed

lemma quantum_pos: "0 < quantum x"
  by (simp add: quantum_def)

lemma quantum_exp_mono:
  assumes "x \<noteq> 0" "\<bar>x\<bar> \<le> \<bar>y\<bar>"
  shows "quantum_exp x \<le> quantum_exp y"
proof -
  have "ilog2 \<bar>x\<bar> \<le> ilog2 \<bar>y\<bar>" using assms by (intro ilog2_mono) simp_all
  then show ?thesis by (simp add: quantum_exp_def)
qed

lemma quantum_exp_eqI:
  assumes "2 powi k \<le> \<bar>x\<bar>" "\<bar>x\<bar> < 2 powi (k + 1)"
  shows "quantum_exp x = max (k - 52) (- 1074)"
  using ilog2_eqI [OF assms] by (simp add: quantum_exp_def)

lemma quantum_exp_le:
  assumes "\<bar>x\<bar> < 2 powi (k + 1)" "x \<noteq> 0" "- 1074 \<le> k - 52"
  shows "quantum_exp x \<le> k - 52"
proof -
  have x: "0 < \<bar>x\<bar>" using assms(2) by simp
  have "2 powi ilog2 \<bar>x\<bar> \<le> \<bar>x\<bar>" using ilog2_bounds [OF x] by simp
  also note assms(1)
  finally have "ilog2 \<bar>x\<bar> < k + 1" by (simp only: pow2_less_iff)
  then show ?thesis using assms(3) by (simp add: quantum_exp_def)
qed

lemma quantum_exp_ge: "- 1074 \<le> quantum_exp x"
  by (simp add: quantum_exp_def)

lemma pow2_int: "0 \<le> e \<Longrightarrow> (2::rat) powi e = of_int (2 ^ nat e)"
  by (simp add: power_int_nonneg_exp)

lemma pow2_diff: "(2::rat) powi a / 2 powi b = 2 powi (a - b)"
  by (simp add: power_int_diff)

text \<open>A multiple of a power of two that is at least the quantum is left unchanged.\<close>

lemma nearest_multiple:
  assumes "x = of_int j * 2 powi e" "quantum_exp x \<le> e"
  shows "nearest x = x"
proof (cases "x = 0")
  case True then show ?thesis by (simp add: nearest_def)
next
  case False
  define q where "q = quantum_exp x"
  have "x / 2 powi q = of_int j * (2 powi e / 2 powi q)" by (simp add: assms(1))
  also have "\<dots> = of_int j * 2 powi (e - q)" by (simp only: pow2_diff)
  also have "\<dots> = of_int (j * 2 ^ nat (e - q))"
    using assms(2) by (simp add: pow2_int q_def)
  finally have "rne (x / 2 powi q) = j * 2 ^ nat (e - q)" by (simp only: rne_of_int)
  then have "of_int (rne (x / 2 powi q)) * (2::rat) powi q = of_int j * (2 powi (e - q) * 2 powi q)"
    using assms(2) by (simp add: pow2_int q_def)
  also have "2 powi (e - q) * (2::rat) powi q = 2 powi e"
    by (simp flip: power_int_add)
  finally show ?thesis using False by (simp add: nearest_def quantum_def q_def assms(1))
qed

lemma nearest_grid:
  assumes "x = of_int j * quantum r" "\<bar>x\<bar> \<le> \<bar>r\<bar>"
  shows "nearest x = x"
proof (cases "x = 0")
  case True then show ?thesis by (simp add: nearest_def)
next
  case False
  have "quantum_exp x \<le> quantum_exp r" using False assms(2) by (rule quantum_exp_mono)
  with assms(1) show ?thesis unfolding quantum_def by (rule nearest_multiple)
qed

lemma nearest_on_grid: "\<exists>j. nearest x = of_int j * quantum x"
  by (cases "x = 0") (auto simp: nearest_def intro: exI [of _ 0])

lemma round_double_Finite: "round_double x = Finite v \<Longrightarrow> v = nearest x \<and> \<bar>v\<bar> < 2 ^ 1024"
  by (auto simp: round_double_def Let_def split: if_splits)

lemma round_double_FiniteI: "nearest x = v \<Longrightarrow> \<bar>v\<bar> < 2 ^ 1024 \<Longrightarrow> round_double x = Finite v"
  by (auto simp: round_double_def Let_def)

lemma is_double_iff: "is_double x \<longleftrightarrow> nearest x = x \<and> \<bar>x\<bar> < 2 ^ 1024"
  by (auto simp: is_double_def round_double_def Let_def)

lemma is_double_grid: "is_double x \<Longrightarrow> \<exists>j. x = of_int j * quantum x"
  using nearest_on_grid [of x] by (simp add: is_double_iff)

lemma is_double_gridI:
  assumes "x = of_int j * quantum r" "\<bar>x\<bar> \<le> \<bar>r\<bar>" "\<bar>r\<bar> < 2 ^ 1024"
  shows "is_double x"
  using nearest_grid [OF assms(1,2)] assms(2,3) by (simp add: is_double_iff)

text \<open>An integer multiple of a power of two with at most 53 significant bits is a double.\<close>

lemma nearest_fixed:
  assumes "x = of_int m * 2 powi e" "\<bar>m\<bar> < 2 ^ 53" "- 1074 \<le> e"
  shows "nearest x = x"
proof (cases "x = 0")
  case True then show ?thesis by (simp add: nearest_def)
next
  case False
  have "\<bar>x\<bar> = of_int \<bar>m\<bar> * 2 powi e" by (simp add: assms(1) abs_mult)
  also have "\<dots> < of_int (2 ^ 53) * 2 powi e"
    using assms(2) by (intro mult_strict_right_mono) (simp_all only: of_int_less_iff zero_less_power_int zero_less_numeral)
  also have "\<dots> = 2 powi (e + 52 + 1)" by (simp add: power_int_add)
  finally have "\<bar>x\<bar> < 2 powi (e + 52 + 1)" .
  then have "quantum_exp x \<le> e + 52 - 52" using False assms(3) by (intro quantum_exp_le) simp_all
  then have "quantum_exp x \<le> e" by simp
  with assms(1) show ?thesis by (rule nearest_multiple)
qed

lemma is_doubleI:
  assumes "x = of_int m * 2 powi e" "\<bar>m\<bar> < 2 ^ 53" "- 1074 \<le> e" "e \<le> 971"
  shows "is_double x"
proof -
  have "\<bar>x\<bar> = of_int \<bar>m\<bar> * 2 powi e" by (simp add: assms(1) abs_mult)
  also have "\<dots> < of_int (2 ^ 53) * 2 powi e"
    using assms(2) by (intro mult_strict_right_mono) (simp_all only: of_int_less_iff zero_less_power_int zero_less_numeral)
  also have "\<dots> = 2 powi (e + 53)" by (simp add: power_int_add)
  also have "\<dots> \<le> 2 powi 1024" using assms(4) by (simp only: pow2_le_iff)
  finally have "\<bar>x\<bar> < 2 ^ 1024" by simp
  with nearest_fixed [OF assms(1-3)] show ?thesis by (simp add: is_double_iff)
qed

subsection \<open>Evaluating a rounding\<close>

lemma nearest_eval:
  assumes "2 powi k \<le> \<bar>x\<bar>" "\<bar>x\<bar> < 2 powi (k + 1)" "q = max (k - 52) (- 1074)"
  shows "nearest x = of_int (rne (x / 2 powi q)) * 2 powi q"
proof -
  have "0 < \<bar>x\<bar>" using assms(1) by (rule less_le_trans [rotated]) simp
  then have "x \<noteq> 0" by simp
  then show ?thesis
    using quantum_exp_eqI [OF assms(1,2)] assms(3) by (simp add: nearest_def quantum_def)
qed

lemma nearest_evalI:
  assumes "2 powi k \<le> \<bar>x\<bar>" "\<bar>x\<bar> < 2 powi (k + 1)" "q = max (k - 52) (- 1074)"
    and "\<bar>x / 2 powi q - of_int m\<bar> < 1 / 2"
  shows "nearest x = of_int m * 2 powi q"
  using nearest_eval [OF assms(1-3)] rne_eqI [OF assms(4)] by simp

lemma round_double_exact: "is_double x \<Longrightarrow> round_double x = Finite x"
  by (simp add: is_double_def)

lemma literal_001: "literal (1 / 100) = Finite (5764607523034235 / 2 ^ 59)"
proof -
  have "nearest (1 / 100) = of_int 5764607523034235 * 2 powi (- 59)"
    by (rule nearest_evalI [where k = "- 7"]) simp_all
  then show ?thesis by (simp add: literal_def round_double_def)
qed

lemma rne_tie: "x = of_int f + 1 / 2 \<Longrightarrow> rne x = (if even f then f else f + 1)"
proof -
  assume x: "x = of_int f + 1 / 2"
  have "\<lfloor>x\<rfloor> = f" unfolding x by (rule floor_unique) simp_all
  then show ?thesis by (simp add: rne_def x)
qed

lemma int_to_float_exact: "\<bar>n\<bar> < 2 ^ 53 \<Longrightarrow> int_to_float n = Inr (Finite (of_int n))"
proof -
  assume "\<bar>n\<bar> < 2 ^ 53"
  then have "is_double (of_int n)" by (intro is_doubleI [where m = n and e = 0]) simp_all
  then show ?thesis by (simp add: int_to_float_def round_double_exact)
qed

lemma max_time_seconds_eq: "max_time_seconds = Inr (Finite (5764607523034235 / 128))"
proof -
  have "is_double (5764607523034235 / 128)"
    by (rule is_doubleI [where m = 5764607523034235 and e = "- 7"]) simp_all
  then have "round_double (5764607523034235 / 128) = Finite (5764607523034235 / 128)"
    by (rule round_double_exact)
  moreover have "int_to_float (2 ^ 52) = Inr (Finite (of_int (2 ^ 52)))"
    by (rule int_to_float_exact) simp
  ultimately show ?thesis
    by (simp add: max_time_seconds_def fmul_int_def and_then_def literal_001)
qed

subsection \<open>A rounded quotient keeps its integer part\<close>

lemma nearest_between:
  assumes lo: "of_int n \<le> y" and hi: "y < of_int (n + 1) - quantum y / 2"
    and q0: "quantum_exp y \<le> 0"
  shows "of_int n \<le> nearest y \<and> nearest y < of_int (n + 1)"
proof (cases "y = 0")
  case True
  have "0 < quantum y" by (rule quantum_pos)
  with hi True have "(0::rat) < of_int (n + 1)" by linarith
  with lo True show ?thesis by (simp add: nearest_def)
next
  case False
  define u where "u = quantum y"
  define s where "s = (2::int) ^ nat (- quantum_exp y)"
  have u: "0 < u" by (simp add: u_def quantum_pos)
  have "u = 2 powi (- (- quantum_exp y))" by (simp add: u_def quantum_def)
  also have "\<dots> = 1 / 2 powi (- quantum_exp y)" by (rule power_int_minus_divide)
  also have "(2::rat) powi (- quantum_exp y) = of_int s" using q0 by (simp add: pow2_int s_def)
  finally have us: "u = 1 / of_int s" .
  have s: "(0::rat) < of_int s" by (simp add: s_def)
  have su: "of_int s * u = 1" using s by (simp add: us)
  have div: "z / u = z * of_int s" for z by (simp add: us)
  have ny: "nearest y = of_int (rne (y / u)) * u" using False by (simp add: nearest_def u_def)
  have e: "of_int (k * s) * u = of_int k" for k
  proof -
    have "of_int (k * s) * u = of_int k * (of_int s * u)" by (simp add: mult.assoc)
    then show ?thesis by (simp only: su mult_1_right)
  qed
  have "of_int (n * s) \<le> y / u" using lo s by (simp add: div mult_right_mono)
  then have "n * s \<le> rne (y / u)" by (rule rne_ge)
  then have "(of_int (n * s) :: rat) \<le> of_int (rne (y / u))" by (simp only: of_int_le_iff)
  then have "of_int (n * s) * u \<le> of_int (rne (y / u)) * u"
    using u by (rule mult_right_mono [OF _ less_imp_le])
  then have 1: "of_int n \<le> nearest y" by (simp only: e ny)
  have "y * of_int s < (of_int (n + 1) - u / 2) * of_int s"
    using hi s unfolding u_def by (rule mult_strict_right_mono)
  also have "\<dots> = of_int ((n + 1) * s) - (u * of_int s) / 2" by (simp add: algebra_simps)
  also have "u * of_int s = 1" using su by (simp add: mult.commute)
  finally have "y / u < of_int ((n + 1) * s) - 1 / 2" by (simp only: div)
  then have "rne (y / u) < (n + 1) * s" by (rule rne_lt)
  then have "(of_int (rne (y / u)) :: rat) < of_int ((n + 1) * s)" by (simp only: of_int_less_iff)
  then have "of_int (rne (y / u)) * u < of_int ((n + 1) * s) * u"
    using u by (rule mult_strict_right_mono)
  then have 2: "nearest y < of_int (n + 1)" by (simp only: e ny)
  from 1 2 show ?thesis ..
qed

lemma quantum_gt: 
  assumes "x \<noteq> 0"
  shows "\<bar>x\<bar> / 2 ^ 53 < quantum x"
proof -
  have x: "0 < \<bar>x\<bar>" using assms by simp
  have "\<bar>x\<bar> < 2 powi (ilog2 \<bar>x\<bar> + 1)" using ilog2_bounds [OF x] by simp
  then have "\<bar>x\<bar> / 2 ^ 53 < 2 powi (ilog2 \<bar>x\<bar> + 1) / 2 ^ 53" by (simp add: divide_strict_right_mono)
  also have "\<dots> = 2 powi (ilog2 \<bar>x\<bar> + 1) / 2 powi 53" by simp
  also have "\<dots> = 2 powi (ilog2 \<bar>x\<bar> + 1 - 53)" by (rule pow2_diff)
  also have "\<dots> \<le> 2 powi quantum_exp x" by (simp only: pow2_le_iff quantum_exp_def)
  finally show ?thesis by (simp add: quantum_def)
qed

lemma quantum_le:
  assumes "x \<noteq> 0" "- 1074 < quantum_exp x"
  shows "quantum x \<le> \<bar>x\<bar> / 2 ^ 52"
proof -
  have x: "0 < \<bar>x\<bar>" using assms by simp
  have q: "quantum_exp x = ilog2 \<bar>x\<bar> - 52" using assms(2) by (simp add: quantum_exp_def max_def split: if_splits)
  have "quantum x = 2 powi (ilog2 \<bar>x\<bar> - 52)" by (simp add: quantum_def q)
  also have "\<dots> = 2 powi ilog2 \<bar>x\<bar> / 2 powi 52" by (simp only: pow2_diff)
  also have "\<dots> = 2 powi ilog2 \<bar>x\<bar> / 2 ^ 52" by simp
  also have "\<dots> \<le> \<bar>x\<bar> / 2 ^ 52" using ilog2_bounds [OF x] by (simp add: divide_right_mono)
  finally show ?thesis .
qed

lemma quantum_subnormal:
  assumes "x \<noteq> 0" "quantum_exp x \<le> - 1074"
  shows "\<bar>x\<bar> < 1 / 2 \<and> quantum x \<le> 1"
proof -
  have x: "0 < \<bar>x\<bar>" using assms by simp
  have "ilog2 \<bar>x\<bar> - 52 \<le> - 1074" using assms(2) by (simp add: quantum_exp_def)
  then have "ilog2 \<bar>x\<bar> + 1 \<le> - 1" by simp
  then have "(2::rat) powi (ilog2 \<bar>x\<bar> + 1) \<le> 2 powi (- 1)" by (simp only: pow2_le_iff)
  moreover have "\<bar>x\<bar> < 2 powi (ilog2 \<bar>x\<bar> + 1)" using ilog2_bounds [OF x] by simp
  ultimately have "\<bar>x\<bar> < 2 powi (- 1)" by linarith
  then have 1: "\<bar>x\<bar> < 1 / 2" by simp
  have "quantum_exp x \<le> 0" using assms(2) by simp
  then have "(2::rat) powi quantum_exp x \<le> 2 powi 0" by (simp only: pow2_le_iff)
  then have "quantum x \<le> 1" by (simp add: quantum_def)
  with 1 show ?thesis ..
qed

lemma div_gap:
  assumes rj: "r = of_int j * quantum r" and r0: "0 < r" and D0: "0 < D"
    and Di: "D = of_int i * quantum r"
  shows "r / D < of_int (\<lfloor>r / D\<rfloor> + 1) - quantum (r / D) / 2"
proof -
  define y where "y = r / D"
  define K where "K = \<lfloor>y\<rfloor> + 1"
  define g where "g = quantum r"
  have y0: "0 < y" using r0 D0 by (simp add: y_def)
  have g0: "0 < g" by (simp add: g_def quantum_pos)
  have yK: "y < of_int K" by (simp add: K_def) linarith
  have K1: "1 \<le> K" using y0 by (simp add: K_def)
  have rD: "r = y * D" using D0 by (simp add: y_def)
  have "quantum y / 2 < of_int K - y"
  proof (cases "quantum_exp y \<le> - 1074")
    case True
    have "\<bar>y\<bar> < 1 / 2 \<and> quantum y \<le> 1"
      using y0 True by (intro quantum_subnormal) simp_all
    moreover have "(1::rat) \<le> of_int K" using K1 by simp
    ultimately show ?thesis using y0 by linarith
  next
    case False
    have "quantum y \<le> \<bar>y\<bar> / 2 ^ 52" using y0 False by (intro quantum_le) simp_all
    then have qy: "quantum y / 2 \<le> y / 2 ^ 53" using y0 by simp
    have "r < of_int K * D" using yK D0 by (simp add: rD)
    then have "0 < of_int K * D - r" by simp
    also have "of_int K * D - r = of_int (K * i - j) * g"
      using rj Di by (simp add: g_def algebra_simps)
    finally have "0 < of_int (K * i - j) * g" .
    then have "(0::rat) < of_int (K * i - j)" using g0 by (simp only: zero_less_mult_iff) auto
    then have "0 < K * i - j" by (simp only: of_int_0_less_iff)
    then have "1 \<le> K * i - j" by linarith
    then have "(1::rat) \<le> of_int (K * i - j)" by (simp only: of_int_le_iff [symmetric] of_int_1)
    then have "1 * g \<le> of_int (K * i - j) * g" using g0 by (intro mult_right_mono) simp_all
    also have "of_int (K * i - j) * g = of_int K * D - r"
      using rj Di by (simp add: g_def algebra_simps)
    finally have gap: "g \<le> of_int K * D - r" by simp
    have "\<bar>r\<bar> / 2 ^ 53 < g" unfolding g_def using r0 by (intro quantum_gt) simp
    then have "r / 2 ^ 53 < of_int K * D - r" using gap r0 by simp
    then have "r / 2 ^ 53 / D < (of_int K * D - r) / D" using D0 by (rule divide_strict_right_mono)
    then have "y / 2 ^ 53 < of_int K - y" using D0 by (simp add: y_def field_simps)
    with qy show ?thesis by linarith
  qed
  then show ?thesis by (simp add: y_def K_def)
qed

subsection \<open>One extraction, exactly\<close>

lemma seconds_per_minute_eq: "seconds_per_minute = Finite 60"
proof -
  have "is_double 60" by (rule is_doubleI [where m = 60 and e = 0]) simp_all
  then show ?thesis by (simp add: seconds_per_minute_def literal_def round_double_exact)
qed

lemma seconds_per_hour_eq: "seconds_per_hour = Finite 3600"
proof -
  have "is_double 60" by (rule is_doubleI [where m = 60 and e = 0]) simp_all
  moreover have "is_double 3600" by (rule is_doubleI [where m = 3600 and e = 0]) simp_all
  ultimately show ?thesis
    by (simp add: seconds_per_hour_def seconds_per_minute_eq literal_def round_double_exact)
qed

lemma seconds_per_day_eq: "seconds_per_day = Finite 86400"
proof -
  have "is_double 24" by (rule is_doubleI [where m = 24 and e = 0]) simp_all
  moreover have "is_double 86400" by (rule is_doubleI [where m = 86400 and e = 0]) simp_all
  ultimately show ?thesis
    by (simp add: seconds_per_day_def seconds_per_hour_eq literal_def round_double_exact)
qed

lemma seconds_per_year_eq: "seconds_per_year = Finite 31557600"
proof -
  have "is_double (36525 / 100)" by (rule is_doubleI [where m = 1461 and e = "- 2"]) simp_all
  moreover have "is_double 31557600" by (rule is_doubleI [where m = 31557600 and e = 0]) simp_all
  ultimately show ?thesis
    by (simp add: seconds_per_year_def seconds_per_day_eq literal_def round_double_exact)
qed

text \<open>
  One extraction is exact when the divisor is a multiple of the unit in the last place of
  \<open>r\<close> and the quotient is below \<open>2\<^sup>5\<^sup>3\<close>: the count is the floor of the exact quotient and the
  new remainder is the exact difference.
\<close>

lemma extract_unit_exact:
  assumes dbl: "is_double r" and r0: "0 \<le> r" and D0: "0 < D"
    and Di: "D = of_int i * quantum r" and small: "r / D < 2 ^ 53"
  shows "extract_unit (Finite r) (Finite D) =
    Inr (\<lfloor>r / D\<rfloor>, Finite (r - of_int \<lfloor>r / D\<rfloor> * D))"
proof -
  define y where "y = r / D"
  define n where "n = \<lfloor>y\<rfloor>"
  obtain j where rj: "r = of_int j * quantum r" using is_double_grid [OF dbl] ..
  have rfin: "\<bar>r\<bar> < 2 ^ 1024" using dbl by (simp add: is_double_iff)
  have y0: "0 \<le> y" using r0 D0 by (simp add: y_def)
  have n0: "0 \<le> n" using y0 by (simp add: n_def)
  have ny: "of_int n \<le> y" by (simp add: n_def)
  have yn: "y < of_int (n + 1)" by (simp add: n_def) linarith
  have rD: "r = y * D" using D0 by (simp add: y_def)
  have n53: "n < 2 ^ 53"
  proof -
    have "(of_int n :: rat) < of_int (2 ^ 53)" using ny small by (simp add: y_def)
    then show ?thesis by (simp only: of_int_less_iff)
  qed
  \<comment> \<open>the quotient rounds to a value with the same integer part\<close>
  have near: "of_int n \<le> nearest y \<and> nearest y < of_int (n + 1)"
  proof (cases "r = 0")
    case True
    then show ?thesis using n0 by (simp add: y_def n_def nearest_def)
  next
    case False
    then have rpos: "0 < r" using r0 by simp
    then have ypos: "0 < y" using D0 by (simp add: y_def)
    have "\<bar>y\<bar> < 2 powi (52 + 1)" using small y0 by (simp add: y_def)
    then have "quantum_exp y \<le> 52 - 52" using ypos by (intro quantum_exp_le) simp_all
    then have q0: "quantum_exp y \<le> 0" by simp
    have "y < of_int (n + 1) - quantum y / 2"
      unfolding y_def n_def by (rule div_gap [OF rj rpos D0 Di])
    with ny show ?thesis using q0 by (intro nearest_between) simp_all
  qed
  then have vfl: "\<lfloor>nearest y\<rfloor> = n" by (intro floor_unique) simp_all
  have v0: "0 \<le> nearest y" using near n0 by (simp add: order_trans [of 0 "of_int n"])
  have "\<bar>nearest y\<bar> < of_int (n + 1)" using near v0 by simp
  also have "(of_int (n + 1) :: rat) \<le> of_int (2 ^ 53)" using n53 by (simp only: of_int_le_iff)
  also have "(of_int (2 ^ 53) :: rat) < 2 ^ 1024" by simp
  finally have "round_double y = Finite (nearest y)" by (intro round_double_FiniteI) simp_all
  then have A: "fdiv (Finite r) (Finite D) = Inr (Finite (nearest y))"
    using D0 by (simp add: y_def)
  have B: "to_int (Finite (nearest y)) = Inr n" using v0 vfl by simp
  have C: "int_to_float n = Inr (Finite (of_int n))"
    using n0 n53 by (intro int_to_float_exact) simp
  \<comment> \<open>the product and the difference are multiples of the quantum of \<open>r\<close> within \<open>[0, r]\<close>\<close>
  have nD: "of_int n * D \<le> r" using ny D0 by (simp add: rD mult_right_mono)
  have nD0: "0 \<le> of_int n * D" using n0 D0 by simp
  have "of_int n * D = of_int (n * i) * quantum r" using Di by simp
  moreover have "\<bar>of_int n * D\<bar> \<le> \<bar>r\<bar>" using nD nD0 r0 by simp
  ultimately have "is_double (of_int n * D)" using rfin by (rule is_double_gridI)
  then have D': "fmul (Finite (of_int n)) (Finite D) = Finite (of_int n * D)"
    by (simp add: round_double_exact)
  have "r - of_int n * D = of_int (j - n * i) * quantum r"
    using Di rj by (simp add: algebra_simps)
  moreover have "\<bar>r - of_int n * D\<bar> \<le> \<bar>r\<bar>" using nD nD0 r0 by simp
  ultimately have "is_double (r - of_int n * D)" using rfin by (rule is_double_gridI)
  then have E: "fsub (Finite r) (Finite (of_int n * D)) = Finite (r - of_int n * D)"
    by (simp add: fsub_def round_double_exact)
  have "extract_unit (Finite r) (Finite D) = Inr (n, Finite (r - of_int n * D))"
    unfolding extract_unit_def A
    by (simp only: and_then_def sum.case B int_fmul_def C D' E)
  then show ?thesis by (simp only: n_def y_def)
qed

lemma quantum_exp_zero: "quantum_exp 0 = - 52"
proof -
  have "bitlen (- 1) = 0" by (simp add: bitlen_eq_zero_iff)
  then show ?thesis by (simp add: quantum_exp_def ilog2_def)
qed

lemma multiple_of_quantum:
  assumes "quantum_exp r \<le> int t"
  shows "\<exists>i. (of_int a * 2 ^ t :: rat) = of_int i * quantum r"
proof -
  define q where "q = quantum_exp r"
  have "(2::rat) ^ t = 2 powi (int t)" by simp
  also have "\<dots> = 2 powi (int t - q + q)" by simp
  also have "\<dots> = 2 powi (int t - q) * 2 powi q" by (rule power_int_add) simp
  also have "2 powi (int t - q) = (of_int (2 ^ nat (int t - q)) :: rat)"
    using assms by (intro pow2_int) (simp add: q_def)
  finally have "(of_int a * 2 ^ t :: rat) = of_int (a * 2 ^ nat (int t - q)) * quantum r"
    by (simp add: quantum_def q_def)
  then show ?thesis ..
qed

lemma floor_remainder:
  assumes "0 \<le> r" "0 < D"
  shows "0 \<le> r - of_int \<lfloor>r / D\<rfloor> * D \<and> r - of_int \<lfloor>r / D\<rfloor> * D < D \<and> 0 \<le> \<lfloor>r / D\<rfloor>"
proof -
  have 1: "of_int \<lfloor>r / D\<rfloor> \<le> r / D" by simp
  have 2: "r / D < of_int \<lfloor>r / D\<rfloor> + 1" by linarith
  have a: "of_int \<lfloor>r / D\<rfloor> * D \<le> r"
    using 1 assms(2) by (simp only: pos_le_divide_eq)
  have b: "r < (of_int \<lfloor>r / D\<rfloor> + 1) * D"
    using 2 assms(2) by (simp only: pos_divide_less_eq)
  have "0 \<le> r / D" using assms by simp
  then have c: "0 \<le> \<lfloor>r / D\<rfloor>" by simp
  from a b c show ?thesis by (simp add: algebra_simps)
qed

lemma remainder_is_double:
  assumes dbl: "is_double r" and r0: "0 \<le> r" and D0: "0 < D"
    and Di: "D = of_int i * quantum r"
  shows "is_double (r - of_int \<lfloor>r / D\<rfloor> * D)"
proof -
  obtain j where rj: "r = of_int j * quantum r" using is_double_grid [OF dbl] ..
  have rfin: "\<bar>r\<bar> < 2 ^ 1024" using dbl by (simp add: is_double_iff)
  note fr = floor_remainder [OF r0 D0]
  have "r - of_int \<lfloor>r / D\<rfloor> * D = of_int (j - \<lfloor>r / D\<rfloor> * i) * quantum r"
    using Di rj by (simp add: algebra_simps)
  moreover have "\<bar>r - of_int \<lfloor>r / D\<rfloor> * D\<bar> \<le> \<bar>r\<bar>"
  proof -
    have "0 \<le> of_int \<lfloor>r / D\<rfloor> * D" using fr D0 by simp
    then show ?thesis using fr r0 by simp
  qed
  ultimately show ?thesis using rfin by (rule is_double_gridI)
qed

lemma extract_unit_pow2:
  assumes dbl: "is_double r" and r0: "0 \<le> r" and rb: "r < 2 ^ (53 + t)"
    and D: "D = of_int a * 2 ^ t" and a0: "0 < a"
  shows "extract_unit (Finite r) (Finite D) =
      Inr (fst (floor_extract r D), Finite (snd (floor_extract r D)))
    \<and> is_double (snd (floor_extract r D))
    \<and> 0 \<le> snd (floor_extract r D) \<and> snd (floor_extract r D) < D"
proof -
  have D0: "0 < D" using a0 by (simp add: D)
  have "quantum_exp r \<le> int t"
  proof (cases "r = 0")
    case True then show ?thesis by (simp add: quantum_exp_zero)
  next
    case False
    have "\<bar>r\<bar> < 2 powi (int t + 52 + 1)" using rb r0 by (simp add: power_int_add power_add mult.commute)
    then have "quantum_exp r \<le> int t + 52 - 52" using False by (intro quantum_exp_le) simp_all
    then show ?thesis by simp
  qed
  then obtain i where Di: "D = of_int i * quantum r"
    unfolding D using multiple_of_quantum by blast
  have "(1::rat) \<le> of_int a" using a0 by simp
  then have "2 ^ t * (1::rat) \<le> 2 ^ t * of_int a" by (intro mult_left_mono) simp_all
  then have Dt: "2 ^ t \<le> D" by (simp add: D mult.commute)
  have "r < 2 ^ 53 * 2 ^ t" using rb by (simp add: power_add)
  also have "\<dots> \<le> 2 ^ 53 * D" using Dt by simp
  finally have small: "r / D < 2 ^ 53" using D0 by (simp add: field_simps)
  show ?thesis
    using extract_unit_exact [OF dbl r0 D0 Di small] remainder_is_double [OF dbl r0 D0 Di]
      floor_remainder [OF r0 D0]
    by (simp add: floor_extract_def Let_def)
qed

subsection \<open>The formatter below \<open>2\<^sup>5\<^sup>8\<close>\<close>

text \<open>
  Below \<open>2\<^sup>5\<^sup>8\<close> every operation of the formatter is exact: the program computes the steps of the
  specification.
\<close>

lemma formatter_steps_exact:
  assumes dbl: "is_double r" and r0: "0 \<le> r" and rb: "r < 2 ^ 58"
  shows "formatter_steps (Finite r) = Inr (as_steps (spec_steps r))"
proof -
  define y where "y = fst (floor_extract r 31557600)"
  define r1 where "r1 = snd (floor_extract r 31557600)"
  define d where "d = fst (floor_extract r1 86400)"
  define r2 where "r2 = snd (floor_extract r1 86400)"
  define h where "h = fst (floor_extract r2 3600)"
  define r3 where "r3 = snd (floor_extract r2 3600)"
  define m where "m = fst (floor_extract r3 60)"
  define r4 where "r4 = snd (floor_extract r3 60)"
  have s1: "extract_unit (Finite r) (Finite 31557600) = Inr (y, Finite r1)
      \<and> is_double r1 \<and> 0 \<le> r1 \<and> r1 < 31557600"
    unfolding y_def r1_def
    by (rule extract_unit_pow2 [where t = 5 and a = 986175, OF dbl r0]) (use rb in simp_all)
  then have b1: "r1 < 2 ^ (53 + 2)" by simp
  have s2: "extract_unit (Finite r1) (Finite 86400) = Inr (d, Finite r2)
      \<and> is_double r2 \<and> 0 \<le> r2 \<and> r2 < 86400"
    unfolding d_def r2_def
    by (rule extract_unit_pow2 [where t = 2 and a = 21600]) (use s1 b1 in simp_all)
  then have b2: "r2 < 2 ^ (53 + 2)" by simp
  have s3: "extract_unit (Finite r2) (Finite 3600) = Inr (h, Finite r3)
      \<and> is_double r3 \<and> 0 \<le> r3 \<and> r3 < 3600"
    unfolding h_def r3_def
    by (rule extract_unit_pow2 [where t = 2 and a = 900]) (use s2 b2 in simp_all)
  then have b3: "r3 < 2 ^ (53 + 2)" by simp
  have s4: "extract_unit (Finite r3) (Finite 60) = Inr (m, Finite r4)
      \<and> is_double r4 \<and> 0 \<le> r4 \<and> r4 < 60"
    unfolding m_def r4_def
    by (rule extract_unit_pow2 [where t = 2 and a = 15]) (use s3 b3 in simp_all)
  have lhs: "formatter_steps (Finite r) =
      Inr ((y, Finite r1), (d, Finite r2), (h, Finite r3), (m, Finite r4))"
    using s1 s2 s3 s4
    by (simp add: formatter_steps_def and_then_def seconds_per_year_eq seconds_per_day_eq
        seconds_per_hour_eq seconds_per_minute_eq)
  have "spec_steps r = ((y, r1), (d, r2), (h, r3), (m, r4))"
    by (simp add: spec_steps_def y_def r1_def d_def r2_def h_def r3_def m_def r4_def
        split: prod.splits)
  with lhs show ?thesis by (simp add: as_steps_def)
qed

lemma format_duration_exact:
  assumes "is_double r" "0 \<le> r" "r < 2 ^ 58"
  shows "format_duration (Finite r) = Inr (spec_breakdown r)"
  using formatter_steps_exact [OF assms]
  by (simp add: format_duration_def spec_breakdown_def as_steps_def and_then_def
      split: prod.splits)

lemma floor_extract_props:
  assumes "0 \<le> r" "0 < D" "floor_extract r D = (n, r')"
  shows "0 \<le> r' \<and> r' < D \<and> 0 \<le> n \<and> of_int n * D + r' = r"
  using floor_remainder [OF assms(1,2)] assms(3)
  by (auto simp: floor_extract_def Let_def)

lemma floor_extract_count:
  assumes "0 \<le> r" "r < of_int c * D" "0 < D" "floor_extract r D = (n, r')"
  shows "n < c"
proof -
  have "r / D < of_int c" using assms(2,3) by (simp add: field_simps)
  then have "\<lfloor>r / D\<rfloor> < c" by (simp add: floor_less_iff)
  then show ?thesis using assms(4) by (auto simp: floor_extract_def Let_def)
qed

lemma spec_steps_props:
  assumes r0: "0 \<le> r" and st: "spec_steps r = ((y, r1), (d, r2), (h, r3), (m, r4))"
  shows "0 \<le> r1 \<and> 0 \<le> r2 \<and> 0 \<le> r3 \<and> 0 \<le> r4 \<and> r4 < 60
    \<and> 0 \<le> y \<and> 0 \<le> d \<and> d \<le> 365 \<and> 0 \<le> h \<and> h \<le> 23 \<and> 0 \<le> m \<and> m \<le> 59
    \<and> of_int y * 31557600 + of_int d * 86400 + of_int h * 3600 + of_int m * 60 + r4 = r"
proof -
  have e1: "floor_extract r 31557600 = (y, r1)" and e2: "floor_extract r1 86400 = (d, r2)"
    and e3: "floor_extract r2 3600 = (h, r3)" and e4: "floor_extract r3 60 = (m, r4)"
    using st by (auto simp: spec_steps_def split: prod.splits)
  have p1: "0 \<le> r1 \<and> r1 < 31557600 \<and> 0 \<le> y \<and> of_int y * 31557600 + r1 = r"
    by (rule floor_extract_props [OF r0 _ e1]) simp
  then have p2: "0 \<le> r2 \<and> r2 < 86400 \<and> 0 \<le> d \<and> of_int d * 86400 + r2 = r1"
    by (intro floor_extract_props [OF _ _ e2]) simp_all
  then have p3: "0 \<le> r3 \<and> r3 < 3600 \<and> 0 \<le> h \<and> of_int h * 3600 + r3 = r2"
    by (intro floor_extract_props [OF _ _ e3]) simp_all
  then have p4: "0 \<le> r4 \<and> r4 < 60 \<and> 0 \<le> m \<and> of_int m * 60 + r4 = r3"
    by (intro floor_extract_props [OF _ _ e4]) simp_all
  have "d < 366" by (rule floor_extract_count [OF _ _ _ e2]) (use p1 in simp_all)
  moreover have "h < 24" by (rule floor_extract_count [OF _ _ _ e3]) (use p2 in simp_all)
  moreover have "m < 60" by (rule floor_extract_count [OF _ _ _ e4]) (use p3 in simp_all)
  ultimately show ?thesis using p1 p2 p3 p4 by simp
qed

subsection \<open>Evaluation at concrete inputs\<close>

text \<open>Certificates for the evaluation of the program at a concrete input.\<close>

lemma round_double_zero: "round_double 0 = Finite 0"
  by (simp add: round_double_def nearest_def)

lemma round_double_cert:
  assumes "2 powi k \<le> \<bar>x\<bar>" "\<bar>x\<bar> < 2 powi (k + 1)"
    and "\<bar>x / 2 powi (max (k - 52) (- 1074)) - of_int m\<bar> < 1 / 2"
    and "v = of_int m * 2 powi (max (k - 52) (- 1074))" "\<bar>v\<bar> < 2 ^ 1024"
  shows "round_double x = Finite v"
proof -
  have "nearest x = v"
    unfolding assms(4) by (rule nearest_evalI [OF assms(1,2) refl assms(3)])
  then show ?thesis using assms(5) by (rule round_double_FiniteI)
qed

lemma round_double_tie_cert:
  assumes "2 powi k \<le> \<bar>x\<bar>" "\<bar>x\<bar> < 2 powi (k + 1)"
    and "x / 2 powi (max (k - 52) (- 1074)) = of_int f + 1 / 2"
    and "v = of_int (if even f then f else f + 1) * 2 powi (max (k - 52) (- 1074))"
    and "\<bar>v\<bar> < 2 ^ 1024"
  shows "round_double x = Finite v"
proof -
  have "nearest x = v"
    unfolding assms(4) nearest_eval [OF assms(1,2) refl] rne_tie [OF assms(3)] ..
  then show ?thesis using assms(5) by (rule round_double_FiniteI)
qed

lemma trunc_cert:
  assumes "(0 \<le> v \<and> of_int n \<le> v \<and> v < of_int n + 1) \<or> (v < 0 \<and> of_int n - 1 < v \<and> v \<le> of_int n)"
  shows "n = (if 0 \<le> v then \<lfloor>v\<rfloor> else \<lceil>v\<rceil>)"
proof (cases "0 \<le> v")
  case True
  with assms have "\<lfloor>v\<rfloor> = n" by (intro floor_unique) auto
  with True show ?thesis by simp
next
  case False
  with assms have "\<lceil>v\<rceil> = n" by (intro ceiling_unique) auto
  with False show ?thesis by simp
qed

lemma extract_unit_cert:
  assumes "D \<noteq> 0"
    and "round_double (r / D) = Finite v"
    and "n = (if 0 \<le> v then \<lfloor>v\<rfloor> else \<lceil>v\<rceil>)"
    and "round_double (of_int n) = Finite fn"
    and "round_double (fn * D) = Finite p"
    and "round_double (r - p) = Finite r'"
  shows "extract_unit (Finite r) (Finite D) = Inr (n, Finite r')"
  using assms
  by (simp add: extract_unit_def and_then_def int_fmul_def int_to_float_def fsub_def)

lemma literal_exact: "is_double x \<Longrightarrow> literal x = Finite x"
  by (simp add: literal_def round_double_exact)

lemma reconstruct_float_cert:
  assumes "round_double (of_int y) = Finite fy" "round_double (of_int d) = Finite fd"
    and "round_double (of_int h) = Finite fh" "round_double (of_int m) = Finite fm"
    and "round_double (fy * 31557600) = Finite py" "round_double (fd * 86400) = Finite pd"
    and "round_double (fh * 3600) = Finite ph" "round_double (fm * 60) = Finite pm"
    and "round_double (py + pd) = Finite sa" "round_double (sa + ph) = Finite sb"
    and "round_double (sb + pm) = Finite sc" "round_double (sc + s) = Finite v"
  shows "reconstruct_float \<lparr>years = y, days = d, hours = h, minutes = m, seconds = Finite s\<rparr>
    = Inr (Finite v)"
proof -
  have l: "literal 31557600 = Finite 31557600" "literal 86400 = Finite 86400"
    "literal 3600 = Finite 3600" "literal 60 = Finite 60"
    by (rule literal_exact, rule is_doubleI [where e = 0 and m = 31557600], simp_all)
      (rule literal_exact, rule is_doubleI [where e = 0 and m = 86400], simp_all,
       rule literal_exact, rule is_doubleI [where e = 0 and m = 3600], simp_all,
       rule literal_exact, rule is_doubleI [where e = 0 and m = 60], simp_all)
  show ?thesis
    using assms
    by (simp add: reconstruct_float_def and_then_def int_fmul_def int_to_float_def l)
qed

text \<open>The program at four inputs above \<open>2\<^sup>5\<^sup>8\<close>, each rounding with its certificate.\<close>

lemma steps_A:
  "formatter_steps (Finite 542155439792555968) =
     Inr ((17179869185, Finite (- 64)), (0, Finite (- 64)), (0, Finite (- 64)), (- 1, Finite (- 4)))"
proof -
  have e1: "extract_unit (Finite 542155439792555968) (Finite 31557600) = Inr (17179869185, Finite (- 64))"
  proof (rule extract_unit_cert [where v = "17179869185" and fn = "17179869185" and p = "542155439792556032"])
    show "(31557600::rat) \<noteq> 0" by simp
    show "round_double (542155439792555968 / 31557600) = Finite (17179869185)"
      by (rule round_double_cert [where k = 34 and m = 4503599627632640]; simp)
    show "17179869185 = (if (0::rat) \<le> 17179869185 then \<lfloor>17179869185 :: rat\<rfloor> else \<lceil>17179869185 :: rat\<rceil>)"
      by (rule trunc_cert) simp
    show "round_double (of_int 17179869185) = Finite (17179869185)"
      by (rule round_double_cert [where k = 34 and m = 4503599627632640]; simp)
    show "round_double (17179869185 * 31557600) = Finite (542155439792556032)"
      by (rule round_double_tie_cert [where k = 58 and f = 8471178746758687]; simp)
    show "round_double (542155439792555968 - 542155439792556032) = Finite (- 64)"
      by (rule round_double_cert [where k = 6 and m = "- 4503599627370496"]; simp)
  qed
  have e2: "extract_unit (Finite (- 64)) (Finite 86400) = Inr (0, Finite (- 64))"
  proof (rule extract_unit_cert [where v = "- (6832127434707241 / 9223372036854775808)" and fn = "0" and p = "0"])
    show "(86400::rat) \<noteq> 0" by simp
    show "round_double ((- 64) / 86400) = Finite (- (6832127434707241 / 9223372036854775808))"
      by (rule round_double_cert [where k = "- 11" and m = "- 6832127434707241"]; simp)
    show "0 = (if (0::rat) \<le> (- (6832127434707241 / 9223372036854775808)) then \<lfloor>- (6832127434707241 / 9223372036854775808) :: rat\<rfloor> else \<lceil>- (6832127434707241 / 9223372036854775808) :: rat\<rceil>)"
      by (rule trunc_cert) simp
    show "round_double (of_int 0) = Finite (0)"
      by (simp add: round_double_zero)
    show "round_double (0 * 86400) = Finite (0)"
      by (simp add: round_double_zero)
    show "round_double ((- 64) - 0) = Finite (- 64)"
      by (rule round_double_cert [where k = 6 and m = "- 4503599627370496"]; simp)
  qed
  have e3: "extract_unit (Finite (- 64)) (Finite 3600) = Inr (0, Finite (- 64))"
  proof (rule extract_unit_cert [where v = "- (5124095576030431 / 288230376151711744)" and fn = "0" and p = "0"])
    show "(3600::rat) \<noteq> 0" by simp
    show "round_double ((- 64) / 3600) = Finite (- (5124095576030431 / 288230376151711744))"
      by (rule round_double_cert [where k = "- 6" and m = "- 5124095576030431"]; simp)
    show "0 = (if (0::rat) \<le> (- (5124095576030431 / 288230376151711744)) then \<lfloor>- (5124095576030431 / 288230376151711744) :: rat\<rfloor> else \<lceil>- (5124095576030431 / 288230376151711744) :: rat\<rceil>)"
      by (rule trunc_cert) simp
    show "round_double (of_int 0) = Finite (0)"
      by (simp add: round_double_zero)
    show "round_double (0 * 3600) = Finite (0)"
      by (simp add: round_double_zero)
    show "round_double ((- 64) - 0) = Finite (- 64)"
      by (rule round_double_cert [where k = 6 and m = "- 4503599627370496"]; simp)
  qed
  have e4: "extract_unit (Finite (- 64)) (Finite 60) = Inr (- 1, Finite (- 4))"
  proof (rule extract_unit_cert [where v = "- (4803839602528529 / 4503599627370496)" and fn = "- 1" and p = "- 60"])
    show "(60::rat) \<noteq> 0" by simp
    show "round_double ((- 64) / 60) = Finite (- (4803839602528529 / 4503599627370496))"
      by (rule round_double_cert [where k = 0 and m = "- 4803839602528529"]; simp)
    show "(- 1) = (if (0::rat) \<le> (- (4803839602528529 / 4503599627370496)) then \<lfloor>- (4803839602528529 / 4503599627370496) :: rat\<rfloor> else \<lceil>- (4803839602528529 / 4503599627370496) :: rat\<rceil>)"
      by (rule trunc_cert) simp
    show "round_double (of_int (- 1)) = Finite (- 1)"
      by (rule round_double_cert [where k = 0 and m = "- 4503599627370496"]; simp)
    show "round_double ((- 1) * 60) = Finite (- 60)"
      by (rule round_double_cert [where k = 5 and m = "- 8444249301319680"]; simp)
    show "round_double ((- 64) - (- 60)) = Finite (- 4)"
      by (rule round_double_cert [where k = 2 and m = "- 4503599627370496"]; simp)
  qed
  show ?thesis
    by (simp only: formatter_steps_def seconds_per_year_eq seconds_per_day_eq seconds_per_hour_eq
        seconds_per_minute_eq e1 e2 e3 e4 and_then_def sum.case prod.case)
qed

lemma steps_B:
  "formatter_steps (Finite 5000000000000000000) =
     Inr ((158440439070, Finite 4568064), (52, Finite 75264), (20, Finite 3264), (54, Finite 24))"
proof -
  have e1: "extract_unit (Finite 5000000000000000000) (Finite 31557600) = Inr (158440439070, Finite 4568064)"
  proof (rule extract_unit_cert [where v = "5191776307450503 / 32768" and fn = "158440439070" and p = "4999999999995431936"])
    show "(31557600::rat) \<noteq> 0" by simp
    show "round_double (5000000000000000000 / 31557600) = Finite (5191776307450503 / 32768)"
      by (rule round_double_cert [where k = 37 and m = 5191776307450503]; simp)
    show "158440439070 = (if (0::rat) \<le> (5191776307450503 / 32768) then \<lfloor>5191776307450503 / 32768 :: rat\<rfloor> else \<lceil>5191776307450503 / 32768 :: rat\<rceil>)"
      by (rule trunc_cert) simp
    show "round_double (of_int 158440439070) = Finite (158440439070)"
      by (rule round_double_cert [where k = 37 and m = 5191776307445760]; simp)
    show "round_double (158440439070 * 31557600) = Finite (4999999999995431936)"
      by (rule round_double_cert [where k = 62 and m = 4882812499995539]; simp)
    show "round_double (5000000000000000000 - 4999999999995431936) = Finite (4568064)"
      by (rule round_double_cert [where k = 22 and m = 4904921371508736]; simp)
  qed
  have e2: "extract_unit (Finite 4568064) (Finite 86400) = Inr (52, Finite 75264)"
  proof (rule extract_unit_cert [where v = "7440947384333253 / 140737488355328" and fn = "52" and p = "4492800"])
    show "(86400::rat) \<noteq> 0" by simp
    show "round_double (4568064 / 86400) = Finite (7440947384333253 / 140737488355328)"
      by (rule round_double_cert [where k = 5 and m = 7440947384333253]; simp)
    show "52 = (if (0::rat) \<le> (7440947384333253 / 140737488355328) then \<lfloor>7440947384333253 / 140737488355328 :: rat\<rfloor> else \<lceil>7440947384333253 / 140737488355328 :: rat\<rceil>)"
      by (rule trunc_cert) simp
    show "round_double (of_int 52) = Finite (52)"
      by (rule round_double_cert [where k = 5 and m = 7318349394477056]; simp)
    show "round_double (52 * 86400) = Finite (4492800)"
      by (rule round_double_cert [where k = 22 and m = 4824107266867200]; simp)
    show "round_double (4568064 - 4492800) = Finite (75264)"
      by (rule round_double_cert [where k = 16 and m = 5172102697058304]; simp)
  qed
  have e3: "extract_unit (Finite 75264) (Finite 3600) = Inr (20, Finite 3264)"
  proof (rule extract_unit_cert [where v = "735587939137181 / 35184372088832" and fn = "20" and p = "72000"])
    show "(3600::rat) \<noteq> 0" by simp
    show "round_double (75264 / 3600) = Finite (735587939137181 / 35184372088832)"
      by (rule round_double_cert [where k = 4 and m = 5884703513097448]; simp)
    show "20 = (if (0::rat) \<le> (735587939137181 / 35184372088832) then \<lfloor>735587939137181 / 35184372088832 :: rat\<rfloor> else \<lceil>735587939137181 / 35184372088832 :: rat\<rceil>)"
      by (rule trunc_cert) simp
    show "round_double (of_int 20) = Finite (20)"
      by (rule round_double_cert [where k = 4 and m = 5629499534213120]; simp)
    show "round_double (20 * 3600) = Finite (72000)"
      by (rule round_double_cert [where k = 16 and m = 4947802324992000]; simp)
    show "round_double (75264 - 72000) = Finite (3264)"
      by (rule round_double_cert [where k = 11 and m = 7177611906121728]; simp)
  qed
  have e4: "extract_unit (Finite 3264) (Finite 60) = Inr (54, Finite 24)"
  proof (rule extract_unit_cert [where v = "7656119366529843 / 140737488355328" and fn = "54" and p = "3240"])
    show "(60::rat) \<noteq> 0" by simp
    show "round_double (3264 / 60) = Finite (7656119366529843 / 140737488355328)"
      by (rule round_double_cert [where k = 5 and m = 7656119366529843]; simp)
    show "54 = (if (0::rat) \<le> (7656119366529843 / 140737488355328) then \<lfloor>7656119366529843 / 140737488355328 :: rat\<rfloor> else \<lceil>7656119366529843 / 140737488355328 :: rat\<rceil>)"
      by (rule trunc_cert) simp
    show "round_double (of_int 54) = Finite (54)"
      by (rule round_double_cert [where k = 5 and m = 7599824371187712]; simp)
    show "round_double (54 * 60) = Finite (3240)"
      by (rule round_double_cert [where k = 11 and m = 7124835347988480]; simp)
    show "round_double (3264 - 3240) = Finite (24)"
      by (rule round_double_cert [where k = 4 and m = 6755399441055744]; simp)
  qed
  show ?thesis
    by (simp only: formatter_steps_def seconds_per_year_eq seconds_per_day_eq seconds_per_hour_eq
        seconds_per_minute_eq e1 e2 e3 e4 and_then_def sum.case prod.case)
qed

lemma recon_float_B:
  "reconstruct_float \<lparr>years = 158440439070, days = 52, hours = 20, minutes = 54, seconds = Finite 24\<rparr> =
     Inr (Finite 4999999999999998976)"
proof (rule reconstruct_float_cert [where fy = "158440439070" and fd = "52" and fh = "20" and fm = "54"
      and py = "4999999999995431936" and pd = "4492800" and ph = "72000" and pm = "3240" and sa = "4999999999999924224" and sb = "4999999999999995904" and sc = "4999999999999998976"])
  show "round_double (of_int 158440439070) = Finite (158440439070)"
    by (rule round_double_cert [where k = 37 and m = 5191776307445760]; simp)
  show "round_double (of_int 52) = Finite (52)"
    by (rule round_double_cert [where k = 5 and m = 7318349394477056]; simp)
  show "round_double (of_int 20) = Finite (20)"
    by (rule round_double_cert [where k = 4 and m = 5629499534213120]; simp)
  show "round_double (of_int 54) = Finite (54)"
    by (rule round_double_cert [where k = 5 and m = 7599824371187712]; simp)
  show "round_double (158440439070 * 31557600) = Finite (4999999999995431936)"
    by (rule round_double_cert [where k = 62 and m = 4882812499995539]; simp)
  show "round_double (52 * 86400) = Finite (4492800)"
    by (rule round_double_cert [where k = 22 and m = 4824107266867200]; simp)
  show "round_double (20 * 3600) = Finite (72000)"
    by (rule round_double_cert [where k = 16 and m = 4947802324992000]; simp)
  show "round_double (54 * 60) = Finite (3240)"
    by (rule round_double_cert [where k = 11 and m = 7124835347988480]; simp)
  show "round_double (4999999999995431936 + 4492800) = Finite (4999999999999924224)"
    by (rule round_double_tie_cert [where k = 62 and f = 4882812499999926]; simp)
  show "round_double (4999999999999924224 + 72000) = Finite (4999999999999995904)"
    by (rule round_double_cert [where k = 62 and m = 4882812499999996]; simp)
  show "round_double (4999999999999995904 + 3240) = Finite (4999999999999998976)"
    by (rule round_double_cert [where k = 62 and m = 4882812499999999]; simp)
  show "round_double (4999999999999998976 + 24) = Finite (4999999999999998976)"
    by (rule round_double_cert [where k = 62 and m = 4882812499999999]; simp)
qed

lemma steps_C:
  "formatter_steps (Finite 4490000000000000000000) =
     Inr ((142279514284990, Finite (- 524288)), (- 6, Finite (- 5888)), (- 1, Finite (- 2288)), (- 38, Finite (- 8)))"
proof -
  have e1: "extract_unit (Finite 4490000000000000000000) (Finite 31557600) = Inr (142279514284990, Finite (- 524288))"
  proof (rule extract_unit_cert [where v = "142279514284990" and fn = "142279514284990" and p = "4490000000000000524288"])
    show "(31557600::rat) \<noteq> 0" by simp
    show "round_double (4490000000000000000000 / 31557600) = Finite (142279514284990)"
      by (rule round_double_cert [where k = 47 and m = 4552944457119680]; simp)
    show "142279514284990 = (if (0::rat) \<le> 142279514284990 then \<lfloor>142279514284990 :: rat\<rfloor> else \<lceil>142279514284990 :: rat\<rceil>)"
      by (rule trunc_cert) simp
    show "round_double (of_int 142279514284990) = Finite (142279514284990)"
      by (rule round_double_cert [where k = 47 and m = 4552944457119680]; simp)
    show "round_double (142279514284990 * 31557600) = Finite (4490000000000000524288)"
      by (rule round_double_cert [where k = 71 and m = 8563995361328126]; simp)
    show "round_double (4490000000000000000000 - 4490000000000000524288) = Finite (- 524288)"
      by (rule round_double_cert [where k = 19 and m = "- 4503599627370496"]; simp)
  qed
  have e2: "extract_unit (Finite (- 524288)) (Finite 86400) = Inr (- 6, Finite (- 5888))"
  proof (rule extract_unit_cert [where v = "- (6832127434707241 / 1125899906842624)" and fn = "- 6" and p = "- 518400"])
    show "(86400::rat) \<noteq> 0" by simp
    show "round_double ((- 524288) / 86400) = Finite (- (6832127434707241 / 1125899906842624))"
      by (rule round_double_cert [where k = 2 and m = "- 6832127434707241"]; simp)
    show "(- 6) = (if (0::rat) \<le> (- (6832127434707241 / 1125899906842624)) then \<lfloor>- (6832127434707241 / 1125899906842624) :: rat\<rfloor> else \<lceil>- (6832127434707241 / 1125899906842624) :: rat\<rceil>)"
      by (rule trunc_cert) simp
    show "round_double (of_int (- 6)) = Finite (- 6)"
      by (rule round_double_cert [where k = 2 and m = "- 6755399441055744"]; simp)
    show "round_double ((- 6) * 86400) = Finite (- 518400)"
      by (rule round_double_cert [where k = 18 and m = "- 8906044184985600"]; simp)
    show "round_double ((- 524288) - (- 518400)) = Finite (- 5888)"
      by (rule round_double_cert [where k = 12 and m = "- 6473924464345088"]; simp)
  qed
  have e3: "extract_unit (Finite (- 5888)) (Finite 3600) = Inr (- 1, Finite (- 2288))"
  proof (rule extract_unit_cert [where v = "- (7365887390543745 / 4503599627370496)" and fn = "- 1" and p = "- 3600"])
    show "(3600::rat) \<noteq> 0" by simp
    show "round_double ((- 5888) / 3600) = Finite (- (7365887390543745 / 4503599627370496))"
      by (rule round_double_cert [where k = 0 and m = "- 7365887390543745"]; simp)
    show "(- 1) = (if (0::rat) \<le> (- (7365887390543745 / 4503599627370496)) then \<lfloor>- (7365887390543745 / 4503599627370496) :: rat\<rfloor> else \<lceil>- (7365887390543745 / 4503599627370496) :: rat\<rceil>)"
      by (rule trunc_cert) simp
    show "round_double (of_int (- 1)) = Finite (- 1)"
      by (rule round_double_cert [where k = 0 and m = "- 4503599627370496"]; simp)
    show "round_double ((- 1) * 3600) = Finite (- 3600)"
      by (rule round_double_cert [where k = 11 and m = "- 7916483719987200"]; simp)
    show "round_double ((- 5888) - (- 3600)) = Finite (- 2288)"
      by (rule round_double_cert [where k = 11 and m = "- 5031365208702976"]; simp)
  qed
  have e4: "extract_unit (Finite (- 2288)) (Finite 60) = Inr (- 38, Finite (- 8))"
  proof (rule extract_unit_cert [where v = "- (5366789555949841 / 140737488355328)" and fn = "- 38" and p = "- 2280"])
    show "(60::rat) \<noteq> 0" by simp
    show "round_double ((- 2288) / 60) = Finite (- (5366789555949841 / 140737488355328))"
      by (rule round_double_cert [where k = 5 and m = "- 5366789555949841"]; simp)
    show "(- 38) = (if (0::rat) \<le> (- (5366789555949841 / 140737488355328)) then \<lfloor>- (5366789555949841 / 140737488355328) :: rat\<rfloor> else \<lceil>- (5366789555949841 / 140737488355328) :: rat\<rceil>)"
      by (rule trunc_cert) simp
    show "round_double (of_int (- 38)) = Finite (- 38)"
      by (rule round_double_cert [where k = 5 and m = "- 5348024557502464"]; simp)
    show "round_double ((- 38) * 60) = Finite (- 2280)"
      by (rule round_double_cert [where k = 11 and m = "- 5013773022658560"]; simp)
    show "round_double ((- 2288) - (- 2280)) = Finite (- 8)"
      by (rule round_double_cert [where k = 3 and m = "- 4503599627370496"]; simp)
  qed
  show ?thesis
    by (simp only: formatter_steps_def seconds_per_year_eq seconds_per_day_eq seconds_per_hour_eq
        seconds_per_minute_eq e1 e2 e3 e4 and_then_def sum.case prod.case)
qed

lemma steps_D:
  "formatter_steps (Finite 1208925819614629174706176) =
     Inr ((38308547532595288, Finite 134217728), (1553, Finite 38528), (10, Finite 2528), (42, Finite 8))"
proof -
  have e1: "extract_unit (Finite 1208925819614629174706176) (Finite 31557600) = Inr (38308547532595288, Finite 134217728)"
  proof (rule extract_unit_cert [where v = "38308547532595288" and fn = "38308547532595288" and p = "1208925819614629040488448"])
    show "(31557600::rat) \<noteq> 0" by simp
    show "round_double (1208925819614629174706176 / 31557600) = Finite (38308547532595288)"
      by (rule round_double_cert [where k = 55 and m = 4788568441574411]; simp)
    show "38308547532595288 = (if (0::rat) \<le> 38308547532595288 then \<lfloor>38308547532595288 :: rat\<rfloor> else \<lceil>38308547532595288 :: rat\<rceil>)"
      by (rule trunc_cert) simp
    show "round_double (of_int 38308547532595288) = Finite (38308547532595288)"
      by (rule round_double_cert [where k = 55 and m = 4788568441574411]; simp)
    show "round_double (38308547532595288 * 31557600) = Finite (1208925819614629040488448)"
      by (rule round_double_cert [where k = 79 and m = 9007199254740991]; simp)
    show "round_double (1208925819614629174706176 - 1208925819614629040488448) = Finite (134217728)"
      by (rule round_double_cert [where k = 27 and m = 4503599627370496]; simp)
  qed
  have e2: "extract_unit (Finite 134217728) (Finite 86400) = Inr (1553, Finite 38528)"
  proof (rule extract_unit_cert [where v = "6832127434707241 / 4398046511104" and fn = "1553" and p = "134179200"])
    show "(86400::rat) \<noteq> 0" by simp
    show "round_double (134217728 / 86400) = Finite (6832127434707241 / 4398046511104)"
      by (rule round_double_cert [where k = 10 and m = 6832127434707241]; simp)
    show "1553 = (if (0::rat) \<le> (6832127434707241 / 4398046511104) then \<lfloor>6832127434707241 / 4398046511104 :: rat\<rfloor> else \<lceil>6832127434707241 / 4398046511104 :: rat\<rceil>)"
      by (rule trunc_cert) simp
    show "round_double (of_int 1553) = Finite (1553)"
      by (rule round_double_cert [where k = 10 and m = 6830166231744512]; simp)
    show "round_double (1553 * 86400) = Finite (134179200)"
      by (rule round_double_cert [where k = 26 and m = 9004613684428800]; simp)
    show "round_double (134217728 - 134179200) = Finite (38528)"
      by (rule round_double_cert [where k = 15 and m = 5295247999369216]; simp)
  qed
  have e3: "extract_unit (Finite 38528) (Finite 3600) = Inr (10, Finite 2528)"
  proof (rule extract_unit_cert [where v = "3012407750752265 / 281474976710656" and fn = "10" and p = "36000"])
    show "(3600::rat) \<noteq> 0" by simp
    show "round_double (38528 / 3600) = Finite (3012407750752265 / 281474976710656)"
      by (rule round_double_cert [where k = 3 and m = 6024815501504530]; simp)
    show "10 = (if (0::rat) \<le> (3012407750752265 / 281474976710656) then \<lfloor>3012407750752265 / 281474976710656 :: rat\<rfloor> else \<lceil>3012407750752265 / 281474976710656 :: rat\<rceil>)"
      by (rule trunc_cert) simp
    show "round_double (of_int 10) = Finite (10)"
      by (rule round_double_cert [where k = 3 and m = 5629499534213120]; simp)
    show "round_double (10 * 3600) = Finite (36000)"
      by (rule round_double_cert [where k = 15 and m = 4947802324992000]; simp)
    show "round_double (38528 - 36000) = Finite (2528)"
      by (rule round_double_cert [where k = 11 and m = 5559130790035456]; simp)
  qed
  have e4: "extract_unit (Finite 2528) (Finite 60) = Inr (42, Finite 8)"
  proof (rule extract_unit_cert [where v = "5929739509371153 / 140737488355328" and fn = "42" and p = "2520"])
    show "(60::rat) \<noteq> 0" by simp
    show "round_double (2528 / 60) = Finite (5929739509371153 / 140737488355328)"
      by (rule round_double_cert [where k = 5 and m = 5929739509371153]; simp)
    show "42 = (if (0::rat) \<le> (5929739509371153 / 140737488355328) then \<lfloor>5929739509371153 / 140737488355328 :: rat\<rfloor> else \<lceil>5929739509371153 / 140737488355328 :: rat\<rceil>)"
      by (rule trunc_cert) simp
    show "round_double (of_int 42) = Finite (42)"
      by (rule round_double_cert [where k = 5 and m = 5910974510923776]; simp)
    show "round_double (42 * 60) = Finite (2520)"
      by (rule round_double_cert [where k = 11 and m = 5541538603991040]; simp)
    show "round_double (2528 - 2520) = Finite (8)"
      by (rule round_double_cert [where k = 3 and m = 4503599627370496]; simp)
  qed
  show ?thesis
    by (simp only: formatter_steps_def seconds_per_year_eq seconds_per_day_eq seconds_per_hour_eq
        seconds_per_minute_eq e1 e2 e3 e4 and_then_def sum.case prod.case)
qed

lemma floor_extract_cert:
  assumes "0 < D" "of_int n * D \<le> r" "r < (of_int n + 1) * D"
  shows "floor_extract r D = (n, r - of_int n * D)"
proof -
  have "of_int n \<le> r / D" using assms(1,2) by (simp only: pos_le_divide_eq)
  moreover have "r / D < of_int n + 1" using assms(1,3) by (simp only: pos_divide_less_eq)
  ultimately have "\<lfloor>r / D\<rfloor> = n" by (intro floor_unique)
  then show ?thesis by (simp add: floor_extract_def)
qed

lemma spec_steps_90061:
  "spec_steps (180123 / 2) =
     ((0, 180123 / 2), (1, 7323 / 2), (1, 123 / 2), (1, 3 / 2))"
proof -
  have "floor_extract (180123 / 2) 31557600 = (0, (180123 / 2) - of_int 0 * 31557600)"
    by (rule floor_extract_cert) simp_all
  then have e1: "floor_extract (180123 / 2) 31557600 = (0, 180123 / 2)" by simp
  have "floor_extract (180123 / 2) 86400 = (1, (180123 / 2) - of_int 1 * 86400)"
    by (rule floor_extract_cert) simp_all
  then have e2: "floor_extract (180123 / 2) 86400 = (1, 7323 / 2)" by simp
  have "floor_extract (7323 / 2) 3600 = (1, (7323 / 2) - of_int 1 * 3600)"
    by (rule floor_extract_cert) simp_all
  then have e3: "floor_extract (7323 / 2) 3600 = (1, 123 / 2)" by simp
  have "floor_extract (123 / 2) 60 = (1, (123 / 2) - of_int 1 * 60)"
    by (rule floor_extract_cert) simp_all
  then have e4: "floor_extract (123 / 2) 60 = (1, 3 / 2)" by simp
  have y: "(36525 / 100 * 86400 :: rat) = 31557600" by simp
  show ?thesis by (simp only: spec_steps_def y e1 e2 e3 e4 prod.case)
qed

lemma spec_steps_zero:
  "spec_steps 0 =
     ((0, 0), (0, 0), (0, 0), (0, 0))"
proof -
  have "floor_extract 0 31557600 = (0, 0 - of_int 0 * 31557600)"
    by (rule floor_extract_cert) simp_all
  then have e1: "floor_extract 0 31557600 = (0, 0)" by simp
  have "floor_extract 0 86400 = (0, 0 - of_int 0 * 86400)"
    by (rule floor_extract_cert) simp_all
  then have e2: "floor_extract 0 86400 = (0, 0)" by simp
  have "floor_extract 0 3600 = (0, 0 - of_int 0 * 3600)"
    by (rule floor_extract_cert) simp_all
  then have e3: "floor_extract 0 3600 = (0, 0)" by simp
  have "floor_extract 0 60 = (0, 0 - of_int 0 * 60)"
    by (rule floor_extract_cert) simp_all
  then have e4: "floor_extract 0 60 = (0, 0)" by simp
  have y: "(36525 / 100 * 86400 :: rat) = 31557600" by simp
  show ?thesis by (simp only: spec_steps_def y e1 e2 e3 e4 prod.case)
qed

lemma spec_steps_x_max:
  "spec_steps (5764607523034235 / 128) =
     ((1427104, 2442663035 / 128), (220, 9639035 / 128), (20, 423035 / 128), (55, 635 / 128))"
proof -
  have "floor_extract (5764607523034235 / 128) 31557600 = (1427104, (5764607523034235 / 128) - of_int 1427104 * 31557600)"
    by (rule floor_extract_cert) simp_all
  then have e1: "floor_extract (5764607523034235 / 128) 31557600 = (1427104, 2442663035 / 128)" by simp
  have "floor_extract (2442663035 / 128) 86400 = (220, (2442663035 / 128) - of_int 220 * 86400)"
    by (rule floor_extract_cert) simp_all
  then have e2: "floor_extract (2442663035 / 128) 86400 = (220, 9639035 / 128)" by simp
  have "floor_extract (9639035 / 128) 3600 = (20, (9639035 / 128) - of_int 20 * 3600)"
    by (rule floor_extract_cert) simp_all
  then have e3: "floor_extract (9639035 / 128) 3600 = (20, 423035 / 128)" by simp
  have "floor_extract (423035 / 128) 60 = (55, (423035 / 128) - of_int 55 * 60)"
    by (rule floor_extract_cert) simp_all
  then have e4: "floor_extract (423035 / 128) 60 = (55, 635 / 128)" by simp
  have y: "(36525 / 100 * 86400 :: rat) = 31557600" by simp
  show ?thesis by (simp only: spec_steps_def y e1 e2 e3 e4 prod.case)
qed

lemma spec_steps_A:
  "spec_steps 542155439792555968 =
     ((17179869184, 31557568), (365, 21568), (5, 3568), (59, 28))"
proof -
  have "floor_extract 542155439792555968 31557600 = (17179869184, 542155439792555968 - of_int 17179869184 * 31557600)"
    by (rule floor_extract_cert) simp_all
  then have e1: "floor_extract 542155439792555968 31557600 = (17179869184, 31557568)" by simp
  have "floor_extract 31557568 86400 = (365, 31557568 - of_int 365 * 86400)"
    by (rule floor_extract_cert) simp_all
  then have e2: "floor_extract 31557568 86400 = (365, 21568)" by simp
  have "floor_extract 21568 3600 = (5, 21568 - of_int 5 * 3600)"
    by (rule floor_extract_cert) simp_all
  then have e3: "floor_extract 21568 3600 = (5, 3568)" by simp
  have "floor_extract 3568 60 = (59, 3568 - of_int 59 * 60)"
    by (rule floor_extract_cert) simp_all
  then have e4: "floor_extract 3568 60 = (59, 28)" by simp
  have y: "(36525 / 100 * 86400 :: rat) = 31557600" by simp
  show ?thesis by (simp only: spec_steps_def y e1 e2 e3 e4 prod.case)
qed

lemma spacing_at_x_max:
  "next_value_at (Finite (5764607523034235 / 128)) = Finite (1441151880758559 / 32) \<and> spacing_at (Finite (5764607523034235 / 128)) = Finite (1 / 128)"
proof -
  have a: "round_double ((5764607523034235 / 128) * (1 / 2 ^ 52)) = Finite (5764607523034235 / 576460752303423488)"
    by (rule round_double_cert [where k = "- 7" and m = 5764607523034235]; simp)
  have b: "round_double ((5764607523034235 / 128) + (5764607523034235 / 576460752303423488)) = Finite (1441151880758559 / 32)"
    by (rule round_double_cert [where k = 45 and m = 5764607523034236]; simp)
  have c: "round_double ((1441151880758559 / 32) + - (5764607523034235 / 128)) = Finite (1 / 128)"
    by (rule round_double_cert [where k = "- 7" and m = 4503599627370496]; simp)
  show ?thesis
    by (simp only: next_value_at_def spacing_at_def epsilon_def fsub_def fmul.simps fadd.simps
        fneg.simps a b c simp_thms)
qed

lemma spacing_at_2_45:
  "next_value_at (Finite 35184372088832) = Finite (4503599627370497 / 128) \<and> spacing_at (Finite 35184372088832) = Finite (1 / 128)"
proof -
  have a: "round_double (35184372088832 * (1 / 2 ^ 52)) = Finite (1 / 128)"
    by (rule round_double_cert [where k = "- 7" and m = 4503599627370496]; simp)
  have b: "round_double (35184372088832 + (1 / 128)) = Finite (4503599627370497 / 128)"
    by (rule round_double_cert [where k = 45 and m = 4503599627370497]; simp)
  have c: "round_double ((4503599627370497 / 128) + - 35184372088832) = Finite (1 / 128)"
    by (rule round_double_cert [where k = "- 7" and m = 4503599627370496]; simp)
  show ?thesis
    by (simp only: next_value_at_def spacing_at_def epsilon_def fsub_def fmul.simps fadd.simps
        fneg.simps a b c simp_thms)
qed

subsection \<open>The reconstruction in double arithmetic\<close>

lemma round_double_int:
  assumes "0 \<le> n" "of_int n \<le> (r::rat)" "r < 2 ^ 53"
  shows "round_double (of_int n) = Finite (of_int n)"
proof -
  have "(of_int n :: rat) < 2 ^ 53" using assms(2,3) by (rule le_less_trans)
  then have "(of_int n :: rat) < of_int (2 ^ 53)" by simp
  then have "n < 2 ^ 53" by (simp only: of_int_less_iff)
  then have "is_double (of_int n)"
    using assms(1) by (intro is_doubleI [where m = n and e = 0]) simp_all
  then show ?thesis by (rule round_double_exact)
qed

text \<open>
  Below \<open>2\<^sup>5\<^sup>3\<close> the reconstruction is exact in double arithmetic as well: every product and every
  partial sum is an integer no larger than the input.
\<close>

lemma reconstruct_float_exact:
  assumes dbl: "is_double r" and r0: "0 \<le> r" and rb: "r < 2 ^ 53"
  shows "reconstruct_float (spec_breakdown r) = Inr (Finite r)"
proof -
  obtain y r1 d r2 h r3 m r4 where st: "spec_steps r = ((y, r1), (d, r2), (h, r3), (m, r4))"
    by (metis prod.exhaust)
  note p = spec_steps_props [OF r0 st]
  have sum: "of_int y * 31557600 + of_int d * 86400 + of_int h * 3600 + of_int m * 60 + r4 = r"
    using p by simp
  have nn: "0 \<le> y" "0 \<le> d" "0 \<le> h" "0 \<le> m" "0 \<le> r4" using p by simp_all
  have q: "(0::rat) \<le> of_int y" "(0::rat) \<le> of_int d" "(0::rat) \<le> of_int h" "(0::rat) \<le> of_int m"
    using nn by simp_all
  have b: "spec_breakdown r = \<lparr>years = y, days = d, hours = h, minutes = m, seconds = Finite r4\<rparr>"
    by (simp add: spec_breakdown_def st)
  have fy: "round_double (of_int y) = Finite (of_int y)"
    by (rule round_double_int [OF nn(1) _ rb]) (use sum q nn in linarith)
  have fd: "round_double (of_int d) = Finite (of_int d)"
    by (rule round_double_int [OF nn(2) _ rb]) (use sum q nn in linarith)
  have fh: "round_double (of_int h) = Finite (of_int h)"
    by (rule round_double_int [OF nn(3) _ rb]) (use sum q nn in linarith)
  have fm: "round_double (of_int m) = Finite (of_int m)"
    by (rule round_double_int [OF nn(4) _ rb]) (use sum q nn in linarith)
  have py: "round_double (of_int y * 31557600) = Finite (of_int y * 31557600)"
    using round_double_int [of "y * 31557600" r] nn sum q rb by simp
  have pd: "round_double (of_int d * 86400) = Finite (of_int d * 86400)"
    using round_double_int [of "d * 86400" r] nn sum q rb by simp
  have ph: "round_double (of_int h * 3600) = Finite (of_int h * 3600)"
    using round_double_int [of "h * 3600" r] nn sum q rb by simp
  have pm: "round_double (of_int m * 60) = Finite (of_int m * 60)"
    using round_double_int [of "m * 60" r] nn sum q rb by simp
  have sa: "round_double (of_int y * 31557600 + of_int d * 86400)
      = Finite (of_int y * 31557600 + of_int d * 86400)"
    using round_double_int [of "y * 31557600 + d * 86400" r] nn sum q rb by simp
  have sb: "round_double (of_int y * 31557600 + of_int d * 86400 + of_int h * 3600)
      = Finite (of_int y * 31557600 + of_int d * 86400 + of_int h * 3600)"
    using round_double_int [of "y * 31557600 + d * 86400 + h * 3600" r] nn sum q rb by simp
  have sc: "round_double (of_int y * 31557600 + of_int d * 86400 + of_int h * 3600 + of_int m * 60)
      = Finite (of_int y * 31557600 + of_int d * 86400 + of_int h * 3600 + of_int m * 60)"
    using round_double_int [of "y * 31557600 + d * 86400 + h * 3600 + m * 60" r] nn sum q rb
    by simp
  have v: "round_double (of_int y * 31557600 + of_int d * 86400 + of_int h * 3600 + of_int m * 60
      + r4) = Finite r"
    unfolding sum using dbl by (rule round_double_exact)
  show ?thesis unfolding b
    by (rule reconstruct_float_cert [OF fy fd fh fm py pd ph pm sa sb sc v])
qed

lemma is_double_x_max: "is_double (5764607523034235 / 128)"
  by (rule is_doubleI [where m = 5764607523034235 and e = "- 7"]) simp_all

lemma is_double_90061: "is_double (180123 / 2)"
  by (rule is_doubleI [where m = 180123 and e = "- 1"]) simp_all

lemma is_double_zero: "is_double 0"
  by (rule is_doubleI [where m = 0 and e = 0]) simp_all

lemma is_double_A: "is_double 542155439792555968"
  by (rule is_doubleI [where m = 8471178746758687 and e = 6]) simp_all

lemma is_double_B: "is_double 5000000000000000000"
  by (rule is_doubleI [where m = 19073486328125 and e = 18]) simp_all

lemma is_double_C: "is_double 4490000000000000000000"
  by (rule is_doubleI [where m = 8563995361328125 and e = 19]) simp_all

lemma is_double_D: "is_double 1208925819614629174706176"
  by (rule is_doubleI [where m = 1 and e = 80]) simp_all

lemma is_double_2_45: "is_double 35184372088832"
  by (rule is_doubleI [where m = 1 and e = 45]) simp_all

subsection \<open>Bounds on a rounded value\<close>

lemma nearest_nonneg: "0 \<le> z \<Longrightarrow> 0 \<le> nearest z"
proof -
  assume z: "0 \<le> z"
  have u: "0 < quantum z" by (rule quantum_pos)
  have "of_int 0 \<le> z / quantum z" using z u by simp
  then have "0 \<le> rne (z / quantum z)" by (rule rne_ge)
  then show ?thesis using u by (simp add: nearest_def)
qed

lemma nearest_nonpos: "z \<le> 0 \<Longrightarrow> nearest z \<le> 0"
proof -
  assume z: "z \<le> 0"
  have u: "0 < quantum z" by (rule quantum_pos)
  have "z / quantum z \<le> of_int 0" using z u by (simp add: divide_nonpos_pos)
  then have "rne (z / quantum z) \<le> 0" by (rule rne_le)
  then have "(of_int (rne (z / quantum z)) :: rat) \<le> 0" by simp
  then have "of_int (rne (z / quantum z)) * quantum z \<le> 0"
    using u by (simp add: mult_le_0_iff)
  then show ?thesis by (simp add: nearest_def)
qed

lemma nearest_le_double:
  assumes zw: "z \<le> w" and w: "is_double w" and w0: "0 \<le> w"
  shows "nearest z \<le> w"
proof (cases "z \<le> 0")
  case True
  then have "nearest z \<le> 0" by (rule nearest_nonpos)
  with w0 show ?thesis by simp
next
  case False
  then have z0: "0 < z" by simp
  define u where "u = quantum z"
  have u: "0 < u" by (simp add: u_def quantum_pos)
  obtain j where wj: "w = of_int j * quantum w" using is_double_grid [OF w] ..
  have q: "quantum_exp z \<le> quantum_exp w"
    using z0 zw w0 by (intro quantum_exp_mono) simp_all
  have "quantum w = 2 powi (quantum_exp w - quantum_exp z + quantum_exp z)"
    by (simp add: quantum_def)
  also have "\<dots> = 2 powi (quantum_exp w - quantum_exp z) * 2 powi quantum_exp z"
    by (rule power_int_add) simp
  also have "2 powi (quantum_exp w - quantum_exp z)
      = (of_int (2 ^ nat (quantum_exp w - quantum_exp z)) :: rat)"
    using q by (intro pow2_int) simp
  finally have "w = of_int (j * 2 ^ nat (quantum_exp w - quantum_exp z)) * u"
    using wj by (simp add: u_def quantum_def)
  then obtain J where wJ: "w = of_int J * u" ..
  have "z / u \<le> w / u" using zw u by (simp add: divide_right_mono)
  also have "w / u = of_int J" using u by (simp add: wJ)
  finally have "rne (z / u) \<le> J" by (rule rne_le)
  then have "(of_int (rne (z / u)) :: rat) \<le> of_int J" by (simp only: of_int_le_iff)
  then have "of_int (rne (z / u)) * u \<le> of_int J * u"
    using u by (rule mult_right_mono [OF _ less_imp_le])
  then show ?thesis using z0 by (simp add: nearest_def u_def [symmetric] wJ)
qed

lemma nearest_err: "\<bar>nearest z - z\<bar> \<le> quantum z / 2"
proof (cases "z = 0")
  case True
  then show ?thesis using quantum_pos [of z] by (simp add: nearest_def)
next
  case False
  define u where "u = quantum z"
  have u: "0 < u" by (simp add: u_def quantum_pos)
  have "nearest z - z = (of_int (rne (z / u)) - z / u) * u"
    using False u by (simp add: nearest_def u_def [symmetric] algebra_simps)
  then have "\<bar>nearest z - z\<bar> = \<bar>of_int (rne (z / u)) - z / u\<bar> * u"
    using u by (simp add: abs_mult)
  also have "\<dots> \<le> 1 / 2 * u"
    using rne_err [of "z / u"] u by (intro mult_right_mono) simp_all
  finally show ?thesis by (simp add: u_def)
qed

lemma quantum_le_pow2:
  assumes "\<bar>z\<bar> < 2 powi (k + 1)" "- 1074 \<le> k - 52" "z \<noteq> 0"
  shows "quantum z \<le> 2 powi (k - 52)"
proof -
  have "quantum_exp z \<le> k - 52" using assms by (intro quantum_exp_le) simp_all
  then show ?thesis by (simp only: quantum_def pow2_le_iff)
qed

lemma nearest_crude: "\<bar>nearest t\<bar> \<le> 2 * \<bar>t\<bar> + 1"
proof (cases "t = 0")
  case True then show ?thesis by (simp add: nearest_def)
next
  case False
  have q: "quantum t \<le> \<bar>t\<bar> + 1"
  proof (cases "quantum_exp t \<le> - 1074")
    case True
    then have "quantum t \<le> 1" using quantum_subnormal [OF False] by simp
    then show ?thesis by linarith
  next
    case False
    then have "quantum t \<le> \<bar>t\<bar> / 2 ^ 52" using \<open>t \<noteq> 0\<close> by (intro quantum_le) simp_all
    also have "\<dots> \<le> \<bar>t\<bar>" by (simp add: field_simps)
    finally show ?thesis by linarith
  qed
  have "\<bar>nearest t - t\<bar> \<le> quantum t / 2" by (rule nearest_err)
  with q show ?thesis by linarith
qed

lemma round_double_small:
  assumes "\<bar>t\<bar> < 2 ^ 60"
  shows "round_double t = Finite (nearest t)"
proof -
  have "\<bar>nearest t\<bar> \<le> 2 * \<bar>t\<bar> + 1" by (rule nearest_crude)
  also have "\<dots> < 2 * 2 ^ 60 + 1" using assms by simp
  also have "\<dots> < (2 ^ 1024 :: rat)" by simp
  finally show ?thesis by (intro round_double_FiniteI) simp_all
qed

lemma grid_step:
  assumes "t = of_int i * g" "0 < g" "t < of_int (n + 1) * g"
  shows "t \<le> of_int n * (g :: rat)"
proof -
  have "of_int i * g < of_int (n + 1) * g" using assms(1,3) by simp
  then have "(of_int i :: rat) < of_int (n + 1)" using assms(2) by (simp only: mult_less_cancel_right_pos)
  then have "i < n + 1" by (simp only: of_int_less_iff)
  then have "(of_int i :: rat) \<le> of_int n" by simp
  then have "of_int i * g \<le> of_int n * g" using assms(2) by (intro mult_right_mono) simp_all
  then show ?thesis by (simp add: assms(1))
qed

text \<open>A normal double in the binade of \<open>2 powi k\<close> is a multiple of \<open>2 powi (k - 52)\<close>.\<close>

lemma double_in_binade:
  assumes dbl: "is_double x" and lo: "2 powi k \<le> x" and hi: "x < 2 powi (k + 1)"
    and nrm: "- 1074 \<le> k - 52"
  obtains j where "x = of_int j * 2 powi (k - 52)" "0 \<le> j" "j < 2 ^ 53"
proof -
  have x0: "0 < x" using lo by (rule less_le_trans [rotated]) simp
  have "quantum_exp x = max (k - 52) (- 1074)"
    using lo hi x0 by (intro quantum_exp_eqI) simp_all
  moreover have "max (k - 52) (- 1074) = k - 52" using nrm by (rule max_absorb1)
  ultimately have q: "quantum x = 2 powi (k - 52)" by (simp only: quantum_def)
  obtain j where xj: "x = of_int j * 2 powi (k - 52)"
    using is_double_grid [OF dbl] unfolding q ..
  have g: "(0::rat) < 2 powi (k - 52)" by simp
  have "0 < of_int j * (2::rat) powi (k - 52)" using x0 xj by simp
  then have "(0::rat) < of_int j" using g by (simp only: zero_less_mult_iff) auto
  then have j0: "0 \<le> j" by simp
  have "k + 1 = 53 + (k - 52)" by simp
  then have "(2::rat) powi (k + 1) = 2 powi (53 + (k - 52))" by (rule arg_cong)
  also have "\<dots> = 2 powi 53 * 2 powi (k - 52)" by (rule power_int_add) simp
  finally have "of_int j * 2 powi (k - 52) < of_int (2 ^ 53) * (2::rat) powi (k - 52)"
    using hi xj by simp
  then have "(of_int j :: rat) < of_int (2 ^ 53)" using g by (simp only: mult_less_cancel_right_pos)
  then have "j < 2 ^ 53" by (simp only: of_int_less_iff)
  with xj j0 show ?thesis by (rule that)
qed

lemma eps_product_exact:
  assumes dbl: "is_double x" and lo: "2 powi k \<le> x" and hi: "x < 2 powi (k + 1)"
    and nrm: "- 1074 \<le> k - 104"
  shows "nearest (x * (1 / 2 ^ 52)) = x * (1 / 2 ^ 52)"
proof -
  obtain j where xj: "x = of_int j * 2 powi (k - 52)" and j: "0 \<le> j" "j < 2 ^ 53"
    using double_in_binade [OF dbl lo hi] nrm by force
  have "(2::rat) powi (k - 52) * (1 / 2 ^ 52) = 2 powi (k - 52) * 2 powi (- 52)"
    by (simp add: power_int_minus_divide)
  also have "\<dots> = 2 powi (k - 52 + - 52)" by (rule power_int_add [symmetric]) simp
  finally have "x * (1 / 2 ^ 52) = of_int j * 2 powi (k - 104)"
    by (simp add: xj mult.assoc)
  moreover have "\<bar>j\<bar> < 2 ^ 53" using j by simp
  ultimately show ?thesis using nrm by (rule nearest_fixed)
qed

subsection \<open>The measured gap\<close>

lemma nearest_minus_on_grid:
  assumes xj: "x = of_int j * 2 powi e" and q: "e \<le> quantum_exp z"
  obtains i where "nearest z - x = of_int i * 2 powi e"
proof -
  obtain n where n: "nearest z = of_int n * quantum z" using nearest_on_grid ..
  have "quantum z = 2 powi (quantum_exp z - e + e)" by (simp add: quantum_def)
  also have "\<dots> = 2 powi (quantum_exp z - e) * 2 powi e" by (rule power_int_add) simp
  also have "2 powi (quantum_exp z - e) = (of_int (2 ^ nat (quantum_exp z - e)) :: rat)"
    using q by (intro pow2_int) simp
  finally have "nearest z - x = of_int (n * 2 ^ nat (quantum_exp z - e) - j) * 2 powi e"
    by (simp add: n xj algebra_simps)
  then show ?thesis by (rule that)
qed

text \<open>The gap that the script measures, before the last rounding, below \<open>2\<^sup>4\<^sup>4\<close>.\<close>

lemma gap_low:
  assumes x0: "0 \<le> x" and xb: "x < 2 ^ 44"
  shows "nearest (x + nearest (x * (1 / 2 ^ 52))) - x \<le> 1 / 128"
proof -
  define s where "s = nearest (x * (1 / 2 ^ 52))"
  define z where "z = x + s"
  have "is_double (1 / 256)" by (rule is_doubleI [where m = 1 and e = "- 8"]) simp_all
  moreover have "x * (1 / 2 ^ 52) \<le> 1 / 256" using xb by simp
  ultimately have s1: "s \<le> 1 / 256" unfolding s_def by (intro nearest_le_double) simp_all
  have s0: "0 \<le> s" unfolding s_def using x0 by (intro nearest_nonneg) simp
  have z0: "0 \<le> z" using x0 s0 by (simp add: z_def)
  have "nearest z - x \<le> 1 / 128"
  proof (cases "z = 0")
    case True
    then show ?thesis using x0 by (simp add: nearest_def)
  next
    case False
    have "\<bar>z\<bar> < 2 powi (44 + 1)" using z0 xb s1 by (simp add: z_def)
    then have "quantum z \<le> 2 powi (44 - 52)" using False by (intro quantum_le_pow2) simp_all
    then have "quantum z \<le> 1 / 256" by simp
    moreover have "nearest z - z \<le> quantum z / 2" using nearest_err [of z] by linarith
    moreover have "z = x + s" by (rule z_def)
    ultimately show ?thesis using s1 by linarith
  qed
  then show ?thesis by (simp only: z_def s_def)
qed

text \<open>From \<open>2\<^sup>4\<^sup>4\<close> to \<open>2\<^sup>4\<^sup>5\<close>: the sum is rounded on a grid of \<open>2\<^sup>-\<^sup>8\<close> or \<open>2\<^sup>-\<^sup>7\<close>.\<close>

lemma gap_mid:
  assumes dbl: "is_double x" and lo: "2 ^ 44 \<le> x" and hi: "x < 2 ^ 45"
  shows "nearest (x + nearest (x * (1 / 2 ^ 52))) - x \<le> 1 / 128"
proof -
  define s where "s = x * (1 / 2 ^ 52)"
  define z where "z = x + s"
  have lo': "2 powi 44 \<le> x" and hi': "x < 2 powi (44 + 1)" using lo hi by simp_all
  obtain j where xj: "x = of_int j * 2 powi (44 - 52)"
    using double_in_binade [OF dbl lo' hi'] by force
  have se: "nearest (x * (1 / 2 ^ 52)) = s"
    unfolding s_def by (rule eps_product_exact [OF dbl lo' hi']) simp
  have x0: "0 < x" using lo by simp
  have s0: "0 \<le> s" using x0 by (simp add: s_def)
  have s1: "s < 1 / 128" using hi by (simp add: s_def)
  have zx: "x \<le> z" using s0 by (simp add: z_def)
  have z0: "z \<noteq> 0" using zx x0 by simp
  have "\<bar>z\<bar> < 2 powi (45 + 1)" using zx x0 hi s1 by (simp add: z_def)
  then have "quantum z \<le> 2 powi (45 - 52)" using z0 by (intro quantum_le_pow2) simp_all
  then have "quantum z \<le> 1 / 128" by simp
  moreover have "nearest z - z \<le> quantum z / 2" using nearest_err [of z] by linarith
  moreover have "z = x + s" by (rule z_def)
  ultimately have "nearest z - x < 3 / 256" using s1 by linarith
  then have ub: "nearest z - x < of_int (2 + 1) * 2 powi (44 - 52)" by simp
  have "quantum_exp x = max (44 - 52) (- 1074)"
    using lo' hi' x0 by (intro quantum_exp_eqI) simp_all
  moreover have "quantum_exp x \<le> quantum_exp z"
    using x0 zx by (intro quantum_exp_mono) simp_all
  ultimately have q: "44 - 52 \<le> quantum_exp z" by simp
  obtain i where "nearest z - x = of_int i * 2 powi (44 - 52)"
    using nearest_minus_on_grid [OF xj q] .
  then have "nearest z - x \<le> of_int 2 * 2 powi (44 - 52)"
    using _ ub by (rule grid_step) simp
  then have "nearest z - x \<le> 1 / 128" by simp
  then show ?thesis by (simp only: se z_def)
qed

text \<open>From \<open>2\<^sup>4\<^sup>5\<close> to \<^verbatim>\<open>max_time_seconds\<close>: the sum is rounded on the grid of \<open>2\<^sup>-\<^sup>7\<close>.\<close>

lemma gap_high:
  assumes dbl: "is_double x" and lo: "2 ^ 45 \<le> x" and hi: "x \<le> 5764607523034235 / 128"
  shows "nearest (x + nearest (x * (1 / 2 ^ 52))) - x \<le> 1 / 128"
proof -
  define s where "s = x * (1 / 2 ^ 52)"
  define z where "z = x + s"
  have lo': "2 powi 45 \<le> x" and hi': "x < 2 powi (45 + 1)" using lo hi by simp_all
  obtain j where xj: "x = of_int j * 2 powi (45 - 52)"
    using double_in_binade [OF dbl lo' hi'] by force
  have se: "nearest (x * (1 / 2 ^ 52)) = s"
    unfolding s_def by (rule eps_product_exact [OF dbl lo' hi']) simp
  have x0: "0 < x" using lo by simp
  have s0: "0 \<le> s" using x0 by (simp add: s_def)
  have s1: "s \<le> 5764607523034235 / 128 * (1 / 2 ^ 52)"
    unfolding s_def using hi by (intro mult_right_mono) simp_all
  have zx: "x \<le> z" using s0 by (simp add: z_def)
  have z0: "z \<noteq> 0" using zx x0 by simp
  have "\<bar>z\<bar> < 2 powi (45 + 1)" using zx x0 hi s1 by (simp add: z_def)
  then have "quantum z \<le> 2 powi (45 - 52)" using z0 by (intro quantum_le_pow2) simp_all
  then have "quantum z \<le> 1 / 128" by simp
  moreover have "nearest z - z \<le> quantum z / 2" using nearest_err [of z] by linarith
  moreover have "z = x + s" by (rule z_def)
  moreover have "(5764607523034235 / 128 * (1 / 2 ^ 52) :: rat) < 3 / 256" by simp
  ultimately have "nearest z - x < 2 / 128" using s1 by linarith
  then have ub: "nearest z - x < of_int (1 + 1) * 2 powi (45 - 52)" by simp
  have "quantum_exp x = max (45 - 52) (- 1074)"
    using lo' hi' x0 by (intro quantum_exp_eqI) simp_all
  moreover have "quantum_exp x \<le> quantum_exp z"
    using x0 zx by (intro quantum_exp_mono) simp_all
  ultimately have q: "45 - 52 \<le> quantum_exp z" by simp
  obtain i where "nearest z - x = of_int i * 2 powi (45 - 52)"
    using nearest_minus_on_grid [OF xj q] .
  then have "nearest z - x \<le> of_int 1 * 2 powi (45 - 52)"
    using _ ub by (rule grid_step) simp
  then have "nearest z - x \<le> 1 / 128" by simp
  then show ?thesis by (simp only: se z_def)
qed

text \<open>Below \<open>2\<^sup>4\<^sup>4\<close> the measured gap stays under \<open>2\<^sup>-\<^sup>7\<close>.\<close>

lemma gap_low_strict:
  assumes x0: "0 \<le> x" and xb: "x < 2 ^ 44"
  shows "nearest (x + nearest (x * (1 / 2 ^ 52))) - x \<le> 3 / 512"
proof -
  define s where "s = nearest (x * (1 / 2 ^ 52))"
  define z where "z = x + s"
  have "is_double (1 / 256)" by (rule is_doubleI [where m = 1 and e = "- 8"]) simp_all
  moreover have "x * (1 / 2 ^ 52) \<le> 1 / 256" using xb by simp
  ultimately have s1: "s \<le> 1 / 256" unfolding s_def by (intro nearest_le_double) simp_all
  have s0: "0 \<le> s" unfolding s_def using x0 by (intro nearest_nonneg) simp
  have z0: "0 \<le> z" using x0 s0 by (simp add: z_def)
  have "nearest z - x \<le> 3 / 512"
  proof (cases "z = 0")
    case True
    then show ?thesis using x0 by (simp add: nearest_def)
  next
    case False
    have "\<bar>z\<bar> < 2 powi (44 + 1)" using z0 xb s1 by (simp add: z_def)
    then have "quantum z \<le> 2 powi (44 - 52)" using False by (intro quantum_le_pow2) simp_all
    then have "quantum z \<le> 1 / 256" by simp
    moreover have "nearest z - z \<le> quantum z / 2" using nearest_err [of z] by linarith
    moreover have "z = x + s" by (rule z_def)
    ultimately show ?thesis using s1 by linarith
  qed
  then show ?thesis by (simp only: z_def s_def)
qed

text \<open>From \<open>2\<^sup>4\<^sup>4\<close> to \<open>1.5 \<times> 2\<^sup>4\<^sup>4\<close> the sum is rounded up by one step of \<open>2\<^sup>-\<^sup>8\<close> at most.\<close>

lemma gap_mid_strict:
  assumes dbl: "is_double x" and lo: "2 ^ 44 \<le> x" and hi: "x < 26388279066624"
  shows "nearest (x + nearest (x * (1 / 2 ^ 52))) - x \<le> 1 / 256"
proof -
  define s where "s = x * (1 / 2 ^ 52)"
  define z where "z = x + s"
  have lo': "2 powi 44 \<le> x" and hi': "x < 2 powi (44 + 1)" using lo hi by simp_all
  obtain j where xj: "x = of_int j * 2 powi (44 - 52)"
    using double_in_binade [OF dbl lo' hi'] by force
  have se: "nearest (x * (1 / 2 ^ 52)) = s"
    unfolding s_def by (rule eps_product_exact [OF dbl lo' hi']) simp
  have x0: "0 < x" using lo by simp
  have s0: "0 \<le> s" using x0 by (simp add: s_def)
  have s1: "s < 3 / 512" using hi by (simp add: s_def)
  have zx: "x \<le> z" using s0 by (simp add: z_def)
  have z0: "z \<noteq> 0" using zx x0 by simp
  have "\<bar>z\<bar> < 2 powi (44 + 1)" using zx x0 hi s1 by (simp add: z_def)
  then have "quantum z \<le> 2 powi (44 - 52)" using z0 by (intro quantum_le_pow2) simp_all
  then have "quantum z \<le> 1 / 256" by simp
  moreover have "nearest z - z \<le> quantum z / 2" using nearest_err [of z] by linarith
  moreover have "z = x + s" by (rule z_def)
  ultimately have "nearest z - x < 2 / 256" using s1 by linarith
  then have ub: "nearest z - x < of_int (1 + 1) * 2 powi (44 - 52)" by simp
  have "quantum_exp x = max (44 - 52) (- 1074)"
    using lo' hi' x0 by (intro quantum_exp_eqI) simp_all
  moreover have "quantum_exp x \<le> quantum_exp z"
    using x0 zx by (intro quantum_exp_mono) simp_all
  ultimately have q: "44 - 52 \<le> quantum_exp z" by simp
  obtain i where "nearest z - x = of_int i * 2 powi (44 - 52)"
    using nearest_minus_on_grid [OF xj q] .
  then have "nearest z - x \<le> of_int 1 * 2 powi (44 - 52)"
    using _ ub by (rule grid_step) simp
  then have "nearest z - x \<le> 1 / 256" by simp
  then show ?thesis by (simp only: se z_def)
qed

lemma spacing_at_3_2_43:
  "next_value_at (Finite 26388279066624) = Finite (3377699720527873 / 128) \<and> spacing_at (Finite 26388279066624) = Finite (1 / 128)"
proof -
  have a: "round_double (26388279066624 * (1 / 2 ^ 52)) = Finite (3 / 512)"
    by (rule round_double_cert [where k = "- 8" and m = 6755399441055744]; simp)
  have b: "round_double (26388279066624 + (3 / 512)) = Finite (3377699720527873 / 128)"
    by (rule round_double_tie_cert [where k = 44 and f = 6755399441055745]; simp)
  have c: "round_double ((3377699720527873 / 128) + - 26388279066624) = Finite (1 / 128)"
    by (rule round_double_cert [where k = "- 7" and m = 4503599627370496]; simp)
  show ?thesis
    by (simp only: next_value_at_def spacing_at_def epsilon_def fsub_def fmul.simps fadd.simps
        fneg.simps a b c simp_thms)
qed

subsection \<open>Symmetry and monotonicity of rounding\<close>

lemma rne_gt: "of_int M - 1 / 2 < x \<Longrightarrow> M \<le> rne x"
proof -
  assume a: "of_int M - 1 / 2 < x"
  have "\<bar>of_int (rne x) - x\<bar> \<le> 1 / 2" by (rule rne_err)
  then have "x - 1 / 2 \<le> of_int (rne x)" by linarith
  with a have "(of_int M :: rat) - 1 < of_int (rne x)" by linarith
  then have "(of_int (M - 1) :: rat) < of_int (rne x)" by simp
  then have "M - 1 < rne x" by (simp only: of_int_less_iff)
  then show ?thesis by simp
qed

lemma rne_neg: "rne (- x) = - rne x"
proof -
  define f where "f = \<lfloor>x\<rfloor>"
  have fl: "of_int f \<le> x" "x < of_int f + 1" by (simp_all add: f_def) linarith
  consider "x - of_int f < 1 / 2" | "1 / 2 < x - of_int f" | "x = of_int f + 1 / 2" by linarith
  then show ?thesis
  proof cases
    case 1
    then have "\<bar>x - of_int f\<bar> < 1 / 2" using fl by linarith
    then have a: "rne x = f" by (rule rne_eqI)
    have "\<bar>- x - of_int (- f)\<bar> < 1 / 2" using 1 fl by (simp; linarith?)
    then have "rne (- x) = - f" by (rule rne_eqI)
    with a show ?thesis by simp
  next
    case 2
    then have "\<bar>x - of_int (f + 1)\<bar> < 1 / 2" using fl by (simp; linarith?)
    then have a: "rne x = f + 1" by (rule rne_eqI)
    have "\<bar>- x - of_int (- (f + 1))\<bar> < 1 / 2" using 2 fl by (simp; linarith?)
    then have "rne (- x) = - (f + 1)" by (rule rne_eqI)
    with a show ?thesis by simp
  next
    case 3
    then have a: "rne x = (if even f then f else f + 1)" by (rule rne_tie)
    have "- x = of_int (- f - 1) + 1 / 2" using 3 by simp
    then have "rne (- x) = (if even (- f - 1) then - f - 1 else - f - 1 + 1)" by (rule rne_tie)
    with a show ?thesis by simp
  qed
qed

lemma quantum_neg: "quantum (- x) = quantum x"
  by (simp add: quantum_def quantum_exp_def)

lemma nearest_neg: "nearest (- x) = - nearest x"
proof -
  have "rne (- x / quantum x) = - rne (x / quantum x)"
    using rne_neg [of "x / quantum x"] by simp
  then show ?thesis by (simp add: nearest_def quantum_neg)
qed

lemma round_double_neg: "round_double (- x) = fneg (round_double x)"
proof (cases "2 ^ 1024 \<le> \<bar>nearest x\<bar>")
  case True
  then have "nearest x \<noteq> 0" by auto
  then have "(0 < nearest x) = (\<not> nearest x < 0)" by auto
  then show ?thesis using True by (simp add: round_double_def nearest_neg Let_def)
next
  case False
  then show ?thesis by (simp add: round_double_def nearest_neg Let_def)
qed

lemma is_double_neg: "is_double x \<Longrightarrow> is_double (- x)"
  by (simp add: is_double_def round_double_neg)

text \<open>Every finite result of a rounding is a double.\<close>

lemma is_double_nearest:
  assumes fin: "\<bar>nearest t\<bar> < 2 ^ 1024"
  shows "is_double (nearest t)"
proof (cases "t = 0")
  case True
  then show ?thesis using is_double_zero by (simp add: nearest_def)
next
  case False
  define e where "e = quantum_exp t"
  define u where "u = quantum t"
  define i where "i = rne (t / u)"
  have u: "0 < u" by (simp add: u_def quantum_pos)
  have ue: "u = 2 powi e" by (simp add: u_def e_def quantum_def)
  have e: "- 1074 \<le> e" unfolding e_def by (rule quantum_exp_ge)
  have n: "nearest t = of_int i * 2 powi e"
    using False by (simp add: nearest_def i_def u_def [symmetric] ue [symmetric])
  have t0: "0 < \<bar>t\<bar>" using False by simp
  have "\<bar>t\<bar> < 2 powi (ilog2 \<bar>t\<bar> + 1)" using ilog2_bounds [OF t0] by simp
  also have "\<dots> \<le> 2 powi (e + 53)"
    unfolding pow2_le_iff by (simp add: e_def quantum_exp_def)
  also have "\<dots> = 2 powi 53 * u" unfolding ue by (subst power_int_add) simp_all
  finally have b: "\<bar>t\<bar> < 2 ^ 53 * u" by simp
  then have "\<bar>t\<bar> / u < 2 ^ 53" using u by (simp add: pos_divide_less_eq)
  then have "t / u \<le> of_int (2 ^ 53)" "of_int (- (2 ^ 53)) \<le> t / u"
    using u by (simp_all add: abs_if divide_simps split: if_splits) 
  then have "i \<le> 2 ^ 53" "- (2 ^ 53) \<le> i"
    unfolding i_def by (simp_all only: rne_le rne_ge)
  then consider "\<bar>i\<bar> < 2 ^ 53" | "i = 2 ^ 53" | "i = - (2 ^ 53)" by linarith
  then have "nearest (nearest t) = nearest t"
  proof cases
    case 1
    with n e show ?thesis by (intro nearest_fixed [where m = i and e = e]) simp_all
  next
    case 2
    have "nearest t = 2 powi 53 * 2 powi e" using n 2 by simp
    also have "\<dots> = 2 powi (53 + e)" by (subst power_int_add) simp_all
    finally have "nearest t = of_int 1 * 2 powi (53 + e)" by simp
    then show ?thesis using e by (intro nearest_fixed [where m = 1 and e = "53 + e"]) simp_all
  next
    case 3
    have "nearest t = - (2 powi 53 * 2 powi e)" using n 3 by simp
    also have "2 powi 53 * 2 powi e = (2 :: rat) powi (53 + e)" by (subst power_int_add) simp_all
    finally have "nearest t = of_int (- 1) * 2 powi (53 + e)" by simp
    then show ?thesis using e by (intro nearest_fixed [where m = "- 1" and e = "53 + e"]) simp_all
  qed
  with fin show ?thesis by (simp add: is_double_iff)
qed

text \<open>Rounding is monotone: it cannot go below a double that is below the argument.\<close>

lemma double_ge_least:
  assumes w: "is_double w" and w0: "0 < w"
  shows "2 powi (- 1074) \<le> w"
proof -
  obtain j where wj: "w = of_int j * quantum w" using is_double_grid [OF w] ..
  have u: "0 < quantum w" by (rule quantum_pos)
  have "0 < of_int j * quantum w" using w0 wj by simp
  then have "(0 :: rat) < of_int j" using u by (simp add: zero_less_mult_iff)
  then have "1 \<le> j" by simp
  then have "(1 :: rat) \<le> of_int j" by simp
  then have "1 * quantum w \<le> of_int j * quantum w" using u by (intro mult_right_mono) simp_all
  moreover have "2 powi (- 1074) \<le> quantum w"
    unfolding quantum_def pow2_le_iff by (rule quantum_exp_ge)
  ultimately show ?thesis using wj by simp
qed

lemma nearest_ge_double:
  assumes wz: "w \<le> z" and w: "is_double w" and w0: "0 \<le> w"
  shows "w \<le> nearest z"
proof (cases "w = 0")
  case True
  then show ?thesis using wz nearest_nonneg [of z] by simp
next
  case False
  then have wp: "0 < w" using w0 by simp
  then have zp: "0 < z" using wz by simp
  define e where "e = ilog2 z"
  define u where "u = quantum z"
  have u: "0 < u" by (simp add: u_def quantum_pos)
  have zb: "2 powi e \<le> z" "z < 2 powi (e + 1)" using ilog2_bounds [OF zp] by (simp_all add: e_def)
  have "2 powi (- 1074) \<le> w" using w wp by (rule double_ge_least)
  also have "w < 2 powi (e + 1)" using wz zb by simp
  finally have "(2 :: rat) powi (- 1074) < 2 powi (e + 1)" .
  then have "- 1074 < e + 1" by (simp only: pow2_less_iff)
  then have e: "- 1074 \<le> e" by simp
  have qz: "quantum_exp z = max (e - 52) (- 1074)"
    using zb zp by (intro quantum_exp_eqI) simp_all
  have nz: "nearest z = of_int (rne (z / u)) * u" using zp by (simp add: nearest_def u_def)
  show ?thesis
  proof (cases "2 powi e \<le> w")
    case True
    have "quantum_exp w = max (e - 52) (- 1074)"
      using True wz zb wp by (intro quantum_exp_eqI) simp_all
    then have "quantum w = u" by (simp add: quantum_def u_def qz)
    then obtain j where wj: "w = of_int j * u" using is_double_grid [OF w] by auto
    have "w / u \<le> z / u" using wz u by (simp add: divide_right_mono)
    moreover have "w / u = of_int j" using u by (simp add: wj)
    ultimately have "of_int j \<le> z / u" by simp
    then have "j \<le> rne (z / u)" by (rule rne_ge)
    then have "(of_int j :: rat) \<le> of_int (rne (z / u))" by (simp only: of_int_le_iff)
    then have "of_int j * u \<le> of_int (rne (z / u)) * u"
      using u by (rule mult_right_mono [OF _ less_imp_le])
    then show ?thesis by (simp add: nz wj)
  next
    case False
    have le: "quantum_exp z \<le> e" using e by (simp add: qz)
    have "(2 :: rat) powi e = 2 powi (e - quantum_exp z + quantum_exp z)" by simp
    also have "\<dots> = 2 powi (e - quantum_exp z) * 2 powi quantum_exp z"
      by (rule power_int_add) simp
    also have "2 powi (e - quantum_exp z) = (of_int (2 ^ nat (e - quantum_exp z)) :: rat)"
      using le by (intro pow2_int) simp
    finally have pj: "2 powi e = of_int (2 ^ nat (e - quantum_exp z)) * u"
      by (simp add: u_def quantum_def)
    define J :: int where "J = 2 ^ nat (e - quantum_exp z)"
    have pJ: "2 powi e = of_int J * u" using pj by (simp add: J_def)
    have "2 powi e / u \<le> z / u" using zb u by (simp add: divide_right_mono)
    moreover have "2 powi e / u = of_int J" using u by (simp add: pJ)
    ultimately have "of_int J \<le> z / u" by simp
    then have "J \<le> rne (z / u)" by (rule rne_ge)
    then have "(of_int J :: rat) \<le> of_int (rne (z / u))" by (simp only: of_int_le_iff)
    then have "of_int J * u \<le> of_int (rne (z / u)) * u"
      using u by (rule mult_right_mono [OF _ less_imp_le])
    then have "2 powi e \<le> nearest z" by (simp add: nz pJ)
    with False show ?thesis by simp
  qed
qed

text \<open>Where the integers are on the grid, rounding respects integer bounds.\<close>

lemma int_on_grid:
  assumes "quantum_exp y \<le> 0"
  obtains J where "(of_int M :: rat) = of_int J * quantum y"
proof -
  have "(1 :: rat) = 2 powi (- quantum_exp y + quantum_exp y)" by simp
  also have "\<dots> = 2 powi (- quantum_exp y) * 2 powi quantum_exp y"
    by (rule power_int_add) simp
  also have "2 powi (- quantum_exp y) = (of_int (2 ^ nat (- quantum_exp y)) :: rat)"
    using assms by (intro pow2_int) simp
  finally have "(of_int M :: rat) = of_int (M * 2 ^ nat (- quantum_exp y)) * quantum y"
    by (simp add: quantum_def)
  then show ?thesis by (rule that)
qed

lemma nearest_int_ge:
  assumes q: "quantum_exp y \<le> 0" and a: "of_int M \<le> y"
  shows "of_int M \<le> nearest y"
proof (cases "y = 0")
  case True then show ?thesis using a by (simp add: nearest_def)
next
  case False
  define u where "u = quantum y"
  have u: "0 < u" by (simp add: u_def quantum_pos)
  obtain J where MJ: "(of_int M :: rat) = of_int J * u" using int_on_grid [OF q] unfolding u_def .
  have "of_int M / u \<le> y / u" using a u by (simp add: divide_right_mono)
  moreover have "of_int M / u = (of_int J :: rat)" using u by (simp add: MJ)
  ultimately have "of_int J \<le> y / u" by simp
  then have "J \<le> rne (y / u)" by (rule rne_ge)
  then have "(of_int J :: rat) \<le> of_int (rne (y / u))" by (simp only: of_int_le_iff)
  then have "of_int J * u \<le> of_int (rne (y / u)) * u"
    using u by (rule mult_right_mono [OF _ less_imp_le])
  then show ?thesis using False by (simp add: nearest_def u_def [symmetric] MJ)
qed

lemma nearest_int_le:
  assumes q: "quantum_exp y \<le> 0" and a: "y \<le> of_int M"
  shows "nearest y \<le> of_int M"
proof (cases "y = 0")
  case True then show ?thesis using a by (simp add: nearest_def)
next
  case False
  define u where "u = quantum y"
  have u: "0 < u" by (simp add: u_def quantum_pos)
  obtain J where MJ: "(of_int M :: rat) = of_int J * u" using int_on_grid [OF q] unfolding u_def .
  have "y / u \<le> of_int M / u" using a u by (simp add: divide_right_mono)
  moreover have "of_int M / u = (of_int J :: rat)" using u by (simp add: MJ)
  ultimately have "y / u \<le> of_int J" by simp
  then have "rne (y / u) \<le> J" by (rule rne_le)
  then have "(of_int (rne (y / u)) :: rat) \<le> of_int J" by (simp only: of_int_le_iff)
  then have "of_int (rne (y / u)) * u \<le> of_int J * u"
    using u by (rule mult_right_mono [OF _ less_imp_le])
  then show ?thesis using False by (simp add: nearest_def u_def [symmetric] MJ)
qed

text \<open>A value less than half a quantum below an integer is rounded up to it.\<close>

lemma nearest_rounds_up:
  assumes q: "quantum_exp y \<le> 0" and a: "of_int M - quantum y / 2 < y" and y0: "0 < y"
  shows "of_int M \<le> nearest y"
proof -
  define u where "u = quantum y"
  have u: "0 < u" by (simp add: u_def quantum_pos)
  obtain J where MJ: "(of_int M :: rat) = of_int J * u" using int_on_grid [OF q] unfolding u_def .
  have "(of_int J - 1 / 2) * u < y" using a by (simp add: MJ u_def [symmetric] algebra_simps)
  then have "of_int J - 1 / 2 < y / u" using u by (simp add: pos_less_divide_eq)
  then have "J \<le> rne (y / u)" by (rule rne_gt)
  then have "(of_int J :: rat) \<le> of_int (rne (y / u))" by (simp only: of_int_le_iff)
  then have "of_int J * u \<le> of_int (rne (y / u)) * u"
    using u by (rule mult_right_mono [OF _ less_imp_le])
  then show ?thesis using y0 by (simp add: nearest_def u_def [symmetric] MJ)
qed

lemma round_double_mid:
  assumes "\<bar>t\<bar> < 2 ^ 100"
  shows "round_double t = Finite (nearest t)"
proof -
  have "\<bar>nearest t\<bar> \<le> 2 * \<bar>t\<bar> + 1" by (rule nearest_crude)
  also have "\<dots> < 2 * 2 ^ 100 + 1" using assms by simp
  also have "\<dots> < (2 ^ 1024 :: rat)" by simp
  finally show ?thesis by (intro round_double_FiniteI) simp_all
qed

subsection \<open>The remainder of the first subtraction\<close>

lemma grid_coarsen:
  assumes "x = of_int j * 2 powi a" "b \<le> a"
  obtains J where "(x :: rat) = of_int J * 2 powi b"
proof -
  have "(2 :: rat) powi a = 2 powi (a - b + b)" by simp
  also have "\<dots> = 2 powi (a - b) * 2 powi b" by (rule power_int_add) simp
  also have "2 powi (a - b) = (of_int (2 ^ nat (a - b)) :: rat)"
    using assms(2) by (intro pow2_int) simp
  finally have "x = of_int (j * 2 ^ nat (a - b)) * 2 powi b" by (simp add: assms(1))
  then show ?thesis by (rule that)
qed

text \<open>The quantum of a product with a number of seconds per year is at most 25 binades up.\<close>

lemma quantum_times_year:
  assumes y0: "0 < y" and z0: "0 < z" and zy: "z \<le> y * 31557600"
  shows "quantum z \<le> quantum y * 2 ^ 25"
proof -
  have "2 powi ilog2 z \<le> z" using ilog2_bounds [OF z0] by simp
  also have "z \<le> y * 31557600" by (rule zy)
  also have "\<dots> < y * 2 ^ 25" using y0 by simp
  also have "\<dots> < 2 powi (ilog2 y + 1) * 2 ^ 25" using ilog2_bounds [OF y0] by simp
  also have "\<dots> = 2 powi (ilog2 y + 1) * 2 powi 25" by simp
  also have "\<dots> = 2 powi (ilog2 y + 1 + 25)" by (subst power_int_add) simp_all
  finally have "ilog2 z < ilog2 y + 1 + 25" by (simp only: pow2_less_iff)
  then have "quantum_exp z \<le> quantum_exp y + 25"
    using y0 z0 by (simp add: quantum_exp_def max_def)
  then have "quantum z \<le> 2 powi (quantum_exp y + 25)" by (simp only: quantum_def pow2_le_iff)
  also have "\<dots> = 2 powi quantum_exp y * 2 powi 25" by (subst power_int_add) simp_all
  finally show ?thesis by (simp add: quantum_def)
qed

text \<open>
  The remainder of the first subtraction, before its rounding, when the count of years is the
  floor of the exact quotient: a multiple of the quantum of the product, bounded by a year plus
  a fraction of that quantum.  Hence it stays below 366 days.
\<close>

lemma year_remainder_bound:
  assumes ti: "(t :: rat) = of_int i * 2 powi b"
    and tb: "t \<le> 31557600 + 2 powi b * (62401 / 2097152)"
  shows "t \<le> 31620001"
proof -
  define s :: rat where "s = 2 powi b"
  have s0: "0 < s" by (simp add: s_def)
  have tb': "t \<le> 31557600 + s * (62401 / 2097152)" using tb by (simp only: s_def)
  consider "b \<le> 21" | "22 \<le> b" "b \<le> 25" | "26 \<le> b" by linarith
  then show ?thesis
  proof cases
    case 1
    then have "s \<le> 2 powi 21" by (simp only: s_def pow2_le_iff)
    then have "s \<le> 2097152" by simp
    with tb' show ?thesis by simp
  next
    case 2
    then have "s \<le> 2 powi 25" by (simp only: s_def pow2_le_iff)
    then have "s \<le> 33554432" by simp
    with tb' have "t < 33554432" by simp
    then have ub: "t < of_int (7 + 1) * 2 powi 22" by simp
    obtain J where "t = of_int J * 2 powi 22" using grid_coarsen [OF ti 2(1)] .
    then have "t \<le> of_int 7 * 2 powi 22" using _ ub by (rule grid_step) simp
    then show ?thesis by simp
  next
    case 3
    then have "2 powi 26 \<le> s" by (simp only: s_def pow2_le_iff)
    then have "67108864 \<le> s" by simp
    with tb' have "t < s" by simp
    then have ub: "t < of_int (0 + 1) * s" by simp
    have "t = of_int i * s" using ti by (simp only: s_def)
    then have "t \<le> of_int 0 * s" using s0 ub by (rule grid_step)
    then show ?thesis by simp
  qed
qed

lemma trunc_neg:
  "(if 0 \<le> - v then \<lfloor>- v :: rat\<rfloor> else \<lceil>- v\<rceil>) = - (if 0 \<le> v then \<lfloor>v\<rfloor> else \<lceil>v\<rceil>)"
  by (cases "v = 0") (auto simp: ceiling_def)

text \<open>The extraction is symmetric under a change of sign of the remainder.\<close>

lemma extract_unit_neg:
  assumes "extract_unit (Finite r) (Finite D) = Inr (n, Finite r')"
  shows "extract_unit (Finite (- r)) (Finite D) = Inr (- n, Finite (- r'))"
proof -
  have D: "D \<noteq> 0" using assms by (auto simp: extract_unit_def and_then_def split: if_splits)
  obtain v where v: "round_double (r / D) = Finite v"
    using assms D by (cases "round_double (r / D)") (auto simp: extract_unit_def and_then_def)
  have n: "n = (if 0 \<le> v then \<lfloor>v\<rfloor> else \<lceil>v\<rceil>)"
    using assms D v
    by (auto simp: extract_unit_def and_then_def int_fmul_def int_to_float_def
        split: pyfloat.splits if_splits)
  obtain fn where fn: "round_double (of_int n) = Finite fn"
    using assms D v n
    by (cases "round_double (of_int n)")
      (auto simp: extract_unit_def and_then_def int_fmul_def int_to_float_def fsub_def
        split: if_splits)
  obtain p where p: "round_double (fn * D) = Finite p"
    using assms D v n fn
    by (cases "round_double (fn * D)")
      (auto simp: extract_unit_def and_then_def int_fmul_def int_to_float_def fsub_def
        split: if_splits)
  have r': "round_double (r - p) = Finite r'"
    using assms D v n fn p
    by (auto simp: extract_unit_def and_then_def int_fmul_def int_to_float_def fsub_def
        split: if_splits)
  show ?thesis
  proof (rule extract_unit_cert [where v = "- v" and fn = "- fn" and p = "- p"])
    show "D \<noteq> 0" by (rule D)
    show "round_double (- r / D) = Finite (- v)"
      using round_double_neg [of "r / D"] v by simp
    show "- n = (if 0 \<le> - v then \<lfloor>- v\<rfloor> else \<lceil>- v\<rceil>)"
      by (simp only: trunc_neg n)
    show "round_double (of_int (- n)) = Finite (- fn)"
      using round_double_neg [of "of_int n"] fn by simp
    show "round_double (- fn * D) = Finite (- p)"
      using round_double_neg [of "fn * D"] p by simp
    show "round_double (- r - - p) = Finite (- r')"
      using round_double_neg [of "r - p"] r' by simp
  qed
qed

subsection \<open>The formatter below \<open>2\<^sup>5\<^sup>3\<close> years\<close>

text \<open>
  The extraction of the years from any nonnegative double below \<open>2\<^sup>5\<^sup>3\<close> years.  The quotient is
  rounded, so the count is the floor of the exact quotient or one more; the product and the
  difference are rounded too.  The value left in \<^verbatim>\<open>remaining\<close> is a double below 366 days, and
  it may be negative.
\<close>

lemma years_step:
  assumes dbl: "is_double r" and r0: "0 \<le> r" and rb: "r < 2 ^ 53 * 31557600"
  shows "\<exists>n r1. extract_unit (Finite r) (Finite 31557600) = Inr (n, Finite r1)
    \<and> is_double r1 \<and> r1 \<le> 31620001 \<and> - (2 ^ 26) \<le> r1"
proof -
  define y where "y = r / 31557600"
  define q where "q = nearest y"
  define k where "k = \<lfloor>y\<rfloor>"
  define n where "n = \<lfloor>q\<rfloor>"
  define z :: rat where "z = of_int n * 31557600"
  define p where "p = nearest z"
  define t where "t = r - p"
  define r1 where "r1 = nearest t"
  have ry: "r = y * 31557600" by (simp add: y_def)
  have y0: "0 \<le> y" using r0 by (simp add: y_def)
  have yb: "y < 2 ^ 53" using rb by (simp add: y_def)
  have ky: "of_int k \<le> y" and yk: "y < of_int (k + 1)" by (simp_all add: k_def) linarith
  have k0: "0 \<le> k" using y0 by (simp add: k_def)
  have "(of_int k :: rat) < of_int (2 ^ 53)" using ky yb by simp
  then have kb: "k < 2 ^ 53" by (simp only: of_int_less_iff)
  have qy: "quantum_exp y \<le> 0"
  proof (cases "y = 0")
    case True then show ?thesis by (simp add: quantum_exp_zero)
  next
    case False
    have "\<bar>y\<bar> < 2 powi (52 + 1)" using y0 yb by simp
    then have "quantum_exp y \<le> 52 - 52" using False by (rule quantum_exp_le) simp
    then show ?thesis by simp
  qed
  have q_lo: "of_int k \<le> q" unfolding q_def using qy ky by (rule nearest_int_ge)
  have q_hi: "q \<le> of_int (k + 1)"
    unfolding q_def using qy less_imp_le [OF yk] by (rule nearest_int_le)
  have q0: "0 \<le> q" using q_lo k0 by simp
  have nk: "k \<le> n" unfolding n_def using q_lo by (simp add: le_floor_iff)
  have "(of_int n :: rat) \<le> of_int (k + 1)" using q_hi unfolding n_def by linarith
  then have nk1: "n \<le> k + 1" by (simp only: of_int_le_iff)
  have n0: "0 \<le> n" using nk k0 by simp
  have nb: "n \<le> 2 ^ 53" using nk1 kb by simp
  have a: "round_double (r / 31557600) = Finite q"
    unfolding q_def y_def [symmetric] using y0 yb by (intro round_double_small) simp
  have tr: "n = (if 0 \<le> q then \<lfloor>q\<rfloor> else \<lceil>q\<rceil>)" using q0 by (simp add: n_def)
  have "is_double (of_int n)"
  proof (cases "n < 2 ^ 53")
    case True
    then show ?thesis using n0 by (intro is_doubleI [where m = n and e = 0]) simp_all
  next
    case False
    then have "n = 2 ^ 53" using nb by simp
    then show ?thesis by (intro is_doubleI [where m = 1 and e = 53]) simp_all
  qed
  then have b: "round_double (of_int n) = Finite (of_int n)" by (rule round_double_exact)
  have z0: "0 \<le> z" using n0 by (simp add: z_def)
  have "(of_int n :: rat) \<le> of_int (2 ^ 53)" using nb by (simp only: of_int_le_iff)
  then have zb: "z \<le> 2 ^ 53 * 31557600" by (simp add: z_def)
  then have "\<bar>z\<bar> < 2 ^ 100" using z0 by simp
  then have c: "round_double (of_int n * 31557600) = Finite p"
    unfolding p_def z_def by (rule round_double_mid)
  have err: "\<bar>p - z\<bar> \<le> quantum z / 2" unfolding p_def by (rule nearest_err)
  have tb: "- (2 ^ 26) \<le> t \<and> t \<le> 31620001"
  proof (cases "n = k")
    case False
    then have n: "n = k + 1" using nk nk1 by simp
    have rz: "r \<le> z" using yk by (simp add: z_def n ry)
    then have "r \<le> p" unfolding p_def using dbl r0 by (rule nearest_ge_double)
    then have up: "t \<le> 0" by (simp add: t_def)
    have zr: "z - r \<le> 31557600"
    proof -
      have "z - r = (of_int (k + 1) - y) * 31557600" by (simp add: z_def n ry algebra_simps)
      also have "\<dots> \<le> 1 * 31557600" using ky by (intro mult_right_mono) simp_all
      finally show ?thesis by simp
    qed
    have zn: "z \<noteq> 0" using n k0 by (simp add: z_def)
    have "\<bar>z\<bar> < 2 powi (78 + 1)" using z0 zb by simp
    then have "quantum z \<le> 2 powi (78 - 52)" using _ zn by (rule quantum_le_pow2) simp
    then have "quantum z \<le> 67108864" by simp
    moreover have "p - z \<le> quantum z / 2" using err by linarith
    ultimately have "p - r \<le> 67108864" using zr by linarith
    then have "- (2 ^ 26) \<le> t" by (simp add: t_def)
    with up show ?thesis by simp
  next
    case True
    have zr: "z \<le> r" using ky by (simp add: z_def True ry)
    then have "p \<le> r" unfolding p_def using dbl r0 by (rule nearest_le_double)
    then have lo: "0 \<le> t" by (simp add: t_def)
    have "t \<le> 31620001"
    proof (cases "k = 0")
      case True
      then have "z = 0" by (simp add: z_def \<open>n = k\<close>)
      then have "p = 0" by (simp add: p_def nearest_def)
      then have "t = y * 31557600" by (simp add: t_def ry)
      also have "\<dots> \<le> 1 * 31557600" using yk True by (intro mult_right_mono) simp_all
      finally show ?thesis by simp
    next
      case False
      then have k1: "1 \<le> k" using k0 by simp
      then have "(1 :: rat) \<le> of_int k" by simp
      then have yp: "0 < y" using ky by linarith
      have zp: "0 < z" using k1 by (simp add: z_def \<open>n = k\<close>)
      have rp: "0 < r" using zp zr by simp
      have "q < of_int (k + 1)"
      proof (rule ccontr)
        assume "\<not> q < of_int (k + 1)"
        then have "of_int (k + 1) \<le> q" by simp
        then have "k + 1 \<le> n" unfolding n_def by (simp add: le_floor_iff)
        with True show False by simp
      qed
      then have "\<not> of_int (k + 1) \<le> nearest y" by (simp add: q_def)
      then have "\<not> of_int (k + 1) - quantum y / 2 < y"
        using nearest_rounds_up [OF qy _ yp] by blast
      then have yu: "y \<le> of_int k + 1 - quantum y / 2" by simp
      have "r - z = (y - of_int k) * 31557600" by (simp add: z_def True ry algebra_simps)
      also have "\<dots> \<le> (1 - quantum y / 2) * 31557600"
        using yu by (intro mult_right_mono) simp_all
      finally have e: "r - z \<le> 31557600 - quantum y * 15778800" by simp
      have "z \<le> y * 31557600" using zr by (simp only: ry)
      then have "quantum z \<le> quantum y * 2 ^ 25" using yp zp by (intro quantum_times_year)
      then have qq: "quantum z / 33554432 \<le> quantum y" by simp
      have "z - p \<le> quantum z / 2" using err by linarith
      with e qq have bound: "t \<le> 31557600 + 2 powi quantum_exp z * (62401 / 2097152)"
        unfolding quantum_def [symmetric] t_def by linarith
      obtain j where rj: "r = of_int j * 2 powi quantum_exp r"
        using is_double_grid [OF dbl] unfolding quantum_def ..
      have "quantum_exp z \<le> quantum_exp r"
        using zp zr by (intro quantum_exp_mono) simp_all
      then obtain J where rJ: "r = of_int J * 2 powi quantum_exp z"
        using grid_coarsen [OF rj] by blast
      obtain i where "nearest z - r = of_int i * 2 powi quantum_exp z"
        using nearest_minus_on_grid [OF rJ order_refl] .
      then have "t = of_int (- i) * 2 powi quantum_exp z"
        by (simp add: t_def p_def algebra_simps)
      then show ?thesis using bound by (rule year_remainder_bound)
    qed
    with lo show ?thesis by simp
  qed
  then have "\<bar>t\<bar> < 2 ^ 60" by (simp add: abs_less_iff)
  then have d: "round_double (r - p) = Finite r1"
    unfolding r1_def t_def by (rule round_double_small)
  have "\<bar>nearest t\<bar> \<le> 2 * \<bar>t\<bar> + 1" by (rule nearest_crude)
  also have "\<dots> < 2 * 2 ^ 60 + 1" using \<open>\<bar>t\<bar> < 2 ^ 60\<close> by simp
  also have "\<dots> < (2 ^ 1024 :: rat)" by simp
  finally have "\<bar>nearest t\<bar> < 2 ^ 1024" .
  then have dr: "is_double r1" unfolding r1_def by (rule is_double_nearest)
  have "is_double 31620001" by (rule is_doubleI [where m = 31620001 and e = 0]) simp_all
  then have up: "r1 \<le> 31620001"
    unfolding r1_def using tb by (intro nearest_le_double) simp_all
  have "is_double (2 ^ 26)" by (rule is_doubleI [where m = 1 and e = 26]) simp_all
  then have "nearest (- t) \<le> 2 ^ 26" using tb by (intro nearest_le_double) simp_all
  then have lo: "- (2 ^ 26) \<le> r1" by (simp add: r1_def nearest_neg)
  have "extract_unit (Finite r) (Finite 31557600) = Inr (n, Finite r1)"
    using _ a tr b c d by (rule extract_unit_cert) simp
  with dr up lo show ?thesis by blast
qed

text \<open>The three extractions that follow, from a nonnegative double: they are exact.\<close>

lemma tail_steps:
  assumes dbl: "is_double r1" and r0: "0 \<le> r1" and rb: "r1 < 2 ^ 55"
  shows "\<exists>d r2 h r3 m r4.
      extract_unit (Finite r1) (Finite 86400) = Inr (d, Finite r2)
    \<and> extract_unit (Finite r2) (Finite 3600) = Inr (h, Finite r3)
    \<and> extract_unit (Finite r3) (Finite 60) = Inr (m, Finite r4)
    \<and> d = \<lfloor>r1 / 86400\<rfloor> \<and> 0 \<le> d \<and> 0 \<le> h \<and> h \<le> 23 \<and> 0 \<le> m \<and> m \<le> 59
    \<and> 0 \<le> r4 \<and> r4 < 60"
proof -
  define d where "d = fst (floor_extract r1 86400)"
  define r2 where "r2 = snd (floor_extract r1 86400)"
  define h where "h = fst (floor_extract r2 3600)"
  define r3 where "r3 = snd (floor_extract r2 3600)"
  define m where "m = fst (floor_extract r3 60)"
  define r4 where "r4 = snd (floor_extract r3 60)"
  have b1: "r1 < 2 ^ (53 + 2)" using rb by simp
  have s2: "extract_unit (Finite r1) (Finite 86400) = Inr (d, Finite r2)
      \<and> is_double r2 \<and> 0 \<le> r2 \<and> r2 < 86400"
    unfolding d_def r2_def
    by (rule extract_unit_pow2 [where t = 2 and a = 21600]) (use dbl r0 b1 in simp_all)
  then have b2: "r2 < 2 ^ (53 + 2)" by simp
  have s3: "extract_unit (Finite r2) (Finite 3600) = Inr (h, Finite r3)
      \<and> is_double r3 \<and> 0 \<le> r3 \<and> r3 < 3600"
    unfolding h_def r3_def
    by (rule extract_unit_pow2 [where t = 2 and a = 900]) (use s2 b2 in simp_all)
  then have b3: "r3 < 2 ^ (53 + 2)" by simp
  have s4: "extract_unit (Finite r3) (Finite 60) = Inr (m, Finite r4)
      \<and> is_double r4 \<and> 0 \<le> r4 \<and> r4 < 60"
    unfolding m_def r4_def
    by (rule extract_unit_pow2 [where t = 2 and a = 15]) (use s3 b3 in simp_all)
  have e2: "floor_extract r1 86400 = (d, r2)" by (simp add: d_def r2_def)
  have e3: "floor_extract r2 3600 = (h, r3)" by (simp add: h_def r3_def)
  have e4: "floor_extract r3 60 = (m, r4)" by (simp add: m_def r4_def)
  have dd: "d = \<lfloor>r1 / 86400\<rfloor>" by (simp add: d_def floor_extract_def Let_def)
  have d0: "0 \<le> d" using floor_extract_props [OF r0 _ e2] by simp
  have h0: "0 \<le> h" using floor_extract_props [OF _ _ e3] s2 by simp
  have m0: "0 \<le> m" using floor_extract_props [OF _ _ e4] s3 by simp
  have "h < 24" using s2 by (intro floor_extract_count [OF _ _ _ e3]) simp_all
  moreover have "m < 60" using s3 by (intro floor_extract_count [OF _ _ _ e4]) simp_all
  ultimately show ?thesis using s2 s3 s4 dd d0 h0 m0 by auto
qed

text \<open>
  The formatter on any nonnegative double below \<open>2\<^sup>5\<^sup>3\<close> years: it returns, and either all the
  remainders are nonnegative and the components are in their ranges, or the first remainder is
  negative and the days, hours, minutes and seconds are all at most zero.
\<close>

lemma format_duration_ranges:
  assumes dbl: "is_double r" and r0: "0 \<le> r" and rb: "r < 2 ^ 53 * 31557600"
  shows "\<exists>y d h m s. format_duration (Finite r) =
        Inr \<lparr>years = y, days = d, hours = h, minutes = m, seconds = Finite s\<rparr>
      \<and> d \<le> 365 \<and> h \<le> 23 \<and> m \<le> 59 \<and> s < 60"
proof -
  obtain n r1 where s1: "extract_unit (Finite r) (Finite 31557600) = Inr (n, Finite r1)"
    and d1: "is_double r1" and up: "r1 \<le> 31620001" and lo: "- (2 ^ 26) \<le> r1"
    using years_step [OF dbl r0 rb] by blast
  show ?thesis
  proof (cases "0 \<le> r1")
    case True
    have "r1 < 2 ^ 55" using up by simp
    then obtain d r2 h r3 m r4 where
      s: "extract_unit (Finite r1) (Finite 86400) = Inr (d, Finite r2)"
        "extract_unit (Finite r2) (Finite 3600) = Inr (h, Finite r3)"
        "extract_unit (Finite r3) (Finite 60) = Inr (m, Finite r4)"
      and p: "d = \<lfloor>r1 / 86400\<rfloor>" "h \<le> 23" "m \<le> 59" "r4 < 60"
      using tail_steps [OF d1 True] by blast
    have "r1 / 86400 < 366" using up by simp
    then have "d < 366" unfolding p(1) by (simp add: floor_less_iff)
    then have "d \<le> 365" by simp
    moreover have "format_duration (Finite r) =
        Inr \<lparr>years = n, days = d, hours = h, minutes = m, seconds = Finite r4\<rparr>"
      using s1 s
      by (simp add: format_duration_def formatter_steps_def and_then_def seconds_per_year_eq
          seconds_per_day_eq seconds_per_hour_eq seconds_per_minute_eq)
    ultimately show ?thesis using p by blast
  next
    case False
    then have a: "0 \<le> - r1" by simp
    have b: "- r1 < 2 ^ 55" using lo by simp
    obtain d r2 h r3 m r4 where
      s: "extract_unit (Finite (- r1)) (Finite 86400) = Inr (d, Finite r2)"
        "extract_unit (Finite r2) (Finite 3600) = Inr (h, Finite r3)"
        "extract_unit (Finite r3) (Finite 60) = Inr (m, Finite r4)"
      and p: "0 \<le> d" "0 \<le> h" "0 \<le> m" "0 \<le> r4"
      using tail_steps [OF is_double_neg [OF d1] a b] by blast
    have s': "extract_unit (Finite r1) (Finite 86400) = Inr (- d, Finite (- r2))"
      "extract_unit (Finite (- r2)) (Finite 3600) = Inr (- h, Finite (- r3))"
      "extract_unit (Finite (- r3)) (Finite 60) = Inr (- m, Finite (- r4))"
      using s [THEN extract_unit_neg] by simp_all
    have "format_duration (Finite r) =
        Inr \<lparr>years = n, days = - d, hours = - h, minutes = - m, seconds = Finite (- r4)\<rparr>"
      using s1 s'
      by (simp add: format_duration_def formatter_steps_def and_then_def seconds_per_year_eq
          seconds_per_day_eq seconds_per_hour_eq seconds_per_minute_eq)
    moreover have "- d \<le> 365" "- h \<le> 23" "- m \<le> 59" "- r4 < 60" using p by simp_all
    ultimately show ?thesis by blast
  qed
qed

lemma steps_E:
  "formatter_steps (Finite 284245591201414664683520) =
     Inr ((9007199254741002, Finite 33554432), (388, Finite 31232), (8, Finite 2432), (40, Finite 32))"
proof -
  have e1: "extract_unit (Finite 284245591201414664683520) (Finite 31557600) = Inr (9007199254741002, Finite 33554432)"
  proof (rule extract_unit_cert [where v = "9007199254741002" and fn = "9007199254741002" and p = "284245591201414631129088"])
    show "(31557600::rat) \<noteq> 0" by simp
    show "round_double (284245591201414664683520 / 31557600) = Finite (9007199254741002)"
      by (rule round_double_cert [where k = 53 and m = 4503599627370501]; simp)
    show "9007199254741002 = (if (0::rat) \<le> 9007199254741002 then \<lfloor>9007199254741002 :: rat\<rfloor> else \<lceil>9007199254741002 :: rat\<rceil>)"
      by (rule trunc_cert) simp
    show "round_double (of_int 9007199254741002) = Finite (9007199254741002)"
      by (rule round_double_cert [where k = 53 and m = 4503599627370501]; simp)
    show "round_double (9007199254741002 * 31557600) = Finite (284245591201414631129088)"
      by (rule round_double_cert [where k = 77 and m = 8471178746265609]; simp)
    show "round_double (284245591201414664683520 - 284245591201414631129088) = Finite (33554432)"
      by (rule round_double_cert [where k = 25 and m = 4503599627370496]; simp)
  qed
  have e2: "extract_unit (Finite 33554432) (Finite 86400) = Inr (388, Finite 31232)"
  proof (rule extract_unit_cert [where v = "6832127434707241 / 17592186044416" and fn = "388" and p = "33523200"])
    show "(86400::rat) \<noteq> 0" by simp
    show "round_double (33554432 / 86400) = Finite (6832127434707241 / 17592186044416)"
      by (rule round_double_cert [where k = 8 and m = 6832127434707241]; simp)
    show "388 = (if (0::rat) \<le> (6832127434707241 / 17592186044416) then \<lfloor>6832127434707241 / 17592186044416 :: rat\<rfloor> else \<lceil>6832127434707241 / 17592186044416 :: rat\<rceil>)"
      by (rule trunc_cert) simp
    show "round_double (of_int 388) = Finite (388)"
      by (rule round_double_cert [where k = 8 and m = 6825768185233408]; simp)
    show "round_double (388 * 86400) = Finite (33523200)"
      by (rule round_double_cert [where k = 24 and m = 8998815478579200]; simp)
    show "round_double (33554432 - 33523200) = Finite (31232)"
      by (rule round_double_cert [where k = 14 and m = 8584986789675008]; simp)
  qed
  have e3: "extract_unit (Finite 31232) (Finite 3600) = Inr (8, Finite 2432)"
  proof (rule extract_unit_cert [where v = "4883903595904005 / 562949953421312" and fn = "8" and p = "28800"])
    show "(3600::rat) \<noteq> 0" by simp
    show "round_double (31232 / 3600) = Finite (4883903595904005 / 562949953421312)"
      by (rule round_double_cert [where k = 3 and m = 4883903595904005]; simp)
    show "8 = (if (0::rat) \<le> (4883903595904005 / 562949953421312) then \<lfloor>4883903595904005 / 562949953421312 :: rat\<rfloor> else \<lceil>4883903595904005 / 562949953421312 :: rat\<rceil>)"
      by (rule trunc_cert) simp
    show "round_double (of_int 8) = Finite (8)"
      by (rule round_double_cert [where k = 3 and m = 4503599627370496]; simp)
    show "round_double (8 * 3600) = Finite (28800)"
      by (rule round_double_cert [where k = 14 and m = 7916483719987200]; simp)
    show "round_double (31232 - 28800) = Finite (2432)"
      by (rule round_double_cert [where k = 11 and m = 5348024557502464]; simp)
  qed
  have e4: "extract_unit (Finite 2432) (Finite 60) = Inr (40, Finite 32)"
  proof (rule extract_unit_cert [where v = "1426139882000657 / 35184372088832" and fn = "40" and p = "2400"])
    show "(60::rat) \<noteq> 0" by simp
    show "round_double (2432 / 60) = Finite (1426139882000657 / 35184372088832)"
      by (rule round_double_cert [where k = 5 and m = 5704559528002628]; simp)
    show "40 = (if (0::rat) \<le> (1426139882000657 / 35184372088832) then \<lfloor>1426139882000657 / 35184372088832 :: rat\<rfloor> else \<lceil>1426139882000657 / 35184372088832 :: rat\<rceil>)"
      by (rule trunc_cert) simp
    show "round_double (of_int 40) = Finite (40)"
      by (rule round_double_cert [where k = 5 and m = 5629499534213120]; simp)
    show "round_double (40 * 60) = Finite (2400)"
      by (rule round_double_cert [where k = 11 and m = 5277655813324800]; simp)
    show "round_double (2432 - 2400) = Finite (32)"
      by (rule round_double_cert [where k = 5 and m = 4503599627370496]; simp)
  qed
  show ?thesis
    by (simp only: formatter_steps_def seconds_per_year_eq seconds_per_day_eq seconds_per_hour_eq
        seconds_per_minute_eq e1 e2 e3 e4 and_then_def sum.case prod.case)
qed

lemma is_double_E: "is_double 284245591201414664683520"
  by (rule is_doubleI [where m = 4235589373132805 and e = 26]) simp_all

section \<open>The solver's value\<close>

text \<open>
  C1: \<^verbatim>\<open>max_time_seconds\<close> is the double nearest to the real number
  \<open>0.01 \<times> 2\<^sup>5\<^sup>2 = 45035996273704.96\<close>.  Its exact value is \<open>45035996273704.9609375\<close>, within
  half a unit in the last place (\<open>2\<^sup>-\<^sup>8\<close>) of \<open>45035996273704.96\<close>, and rounded to two decimals
  it is \<open>45035996273704.96\<close>.
\<close>

theorem max_time_seconds_value:
  "max_time_seconds = Inr (Finite (5764607523034235 / 128))
   \<and> round_double (1 / 100 * 2 ^ 52) = Finite (5764607523034235 / 128)
   \<and> (1 / 100 * 2 ^ 52 :: rat) = 4503599627370496 / 100
   \<and> \<bar>5764607523034235 / 128 - 4503599627370496 / 100 :: rat\<bar> \<le> 1 / 2 ^ 8
   \<and> rne (5764607523034235 / 128 * 100) = 4503599627370496"
proof -
  have "nearest (1 / 100 * 2 ^ 52) = of_int 5764607523034235 * 2 powi (- 7)"
    by (rule nearest_evalI [where k = 45]) simp_all
  then have "round_double (1 / 100 * 2 ^ 52) = Finite (5764607523034235 / 128)"
    by (intro round_double_FiniteI) simp_all
  moreover have "rne (5764607523034235 / 128 * 100) = 4503599627370496"
    by (rule rne_eqI) simp
  ultimately show ?thesis by (simp add: max_time_seconds_eq)
qed

section \<open>The measured spacing\<close>

text \<open>
  C3: the spacing that the script measures at \<^verbatim>\<open>max_time_seconds\<close>,
  \<open>(x + x \<times> epsilon) - x\<close> in double arithmetic, is \<open>2\<^sup>-\<^sup>7 = 0.0078125\<close>, which is at most \<open>0.01\<close>
  (as a real number, and as the double that the literal \<^verbatim>\<open>0.01\<close> denotes).
\<close>

theorem spacing_at_most_hundredth:
  "spacing = Inr (Finite (1 / 128))
   \<and> next_value = Inr (Finite (5764607523034236 / 128))
   \<and> (1 / 128 :: rat) \<le> 1 / 100
   \<and> literal (1 / 100) = Finite (5764607523034235 / 2 ^ 59)
   \<and> (1 / 128 :: rat) \<le> 5764607523034235 / 2 ^ 59"
  using spacing_at_x_max
  by (simp add: spacing_def next_value_def max_time_seconds_eq and_then_def literal_001)


section \<open>The formatter at the inputs of the specification\<close>

text \<open>
  C5: for the input \<open>90061.5\<close> seconds the formatter produces 0 years, 1 day, 1 hour, 1 minute
  and \<open>1.5\<close> seconds.
\<close>

theorem format_duration_90061_5:
  "format_duration (literal (180123 / 2)) =
     Inr \<lparr>years = 0, days = 1, hours = 1, minutes = 1, seconds = Finite (3 / 2)\<rparr>"
proof -
  have "format_duration (Finite (180123 / 2)) = Inr (spec_breakdown (180123 / 2))"
    by (rule format_duration_exact [OF is_double_90061]) simp_all
  then show ?thesis
    by (simp add: literal_exact [OF is_double_90061] spec_breakdown_def spec_steps_90061)
qed

text \<open>C6: for the input \<open>0\<close> all five components are zero.\<close>

theorem format_duration_zero:
  "format_duration (literal 0) =
     Inr \<lparr>years = 0, days = 0, hours = 0, minutes = 0, seconds = Finite 0\<rparr>"
proof -
  have "format_duration (Finite 0) = Inr (spec_breakdown 0)"
    by (rule format_duration_exact [OF is_double_zero]) simp_all
  then show ?thesis
    by (simp add: literal_exact [OF is_double_zero] spec_breakdown_def spec_steps_zero)
qed

text \<open>
  C7: for the input \<^verbatim>\<open>max_time_seconds\<close> the script's breakdown has 1427104 years, which is
  \<open>floor(x_max / 31557600)\<close> and lies between 1.4 and 1.5 million.
\<close>

theorem years_at_max_time:
  "formatted = Inr \<lparr>years = 1427104, days = 220, hours = 20, minutes = 55,
       seconds = Finite (635 / 128)\<rparr>
   \<and> \<lfloor>5764607523034235 / 128 / 31557600 :: rat\<rfloor> = 1427104
   \<and> (1400000 :: int) \<le> 1427104 \<and> (1427104 :: int) < 1500000"
proof -
  have "format_duration (Finite (5764607523034235 / 128))
      = Inr (spec_breakdown (5764607523034235 / 128))"
    by (rule format_duration_exact [OF is_double_x_max]) simp_all
  then have "formatted = Inr \<lparr>years = 1427104, days = 220, hours = 20, minutes = 55,
       seconds = Finite (635 / 128)\<rparr>"
    by (simp add: formatted_def max_time_seconds_eq and_then_def spec_breakdown_def
        spec_steps_x_max)
  moreover have "\<lfloor>5764607523034235 / 128 / 31557600 :: rat\<rfloor> = 1427104"
    by (rule floor_unique) simp_all
  ultimately show ?thesis by simp
qed

section \<open>The formatter on every input below \<open>2\<^sup>5\<^sup>8\<close>\<close>

text \<open>
  C9, as the program has it: for every nonnegative double input below \<open>2\<^sup>5\<^sup>8\<close> seconds (the
  script's own input \<^verbatim>\<open>max_time_seconds\<close> is one) the value of \<^verbatim>\<open>remaining\<close> is nonnegative after
  each of the four subtractions, and so is the seconds component.
\<close>

theorem remainders_nonneg_below_2_58:
  assumes "is_double r" "0 \<le> r" "r < 2 ^ 58"
  shows "holds remainders_nonneg (formatter_steps (Finite r))
    \<and> holds (\<lambda>b. nonneg (seconds b)) (format_duration (Finite r))"
proof -
  obtain y r1 d r2 h r3 m r4 where st: "spec_steps r = ((y, r1), (d, r2), (h, r3), (m, r4))"
    by (metis prod.exhaust)
  note p = spec_steps_props [OF assms(2) st]
  have "holds remainders_nonneg (formatter_steps (Finite r))"
    using p by (simp add: formatter_steps_exact [OF assms] st as_steps_def holds_def
        remainders_nonneg_def)
  moreover have "holds (\<lambda>b. nonneg (seconds b)) (format_duration (Finite r))"
    using p by (simp add: format_duration_exact [OF assms] spec_breakdown_def st holds_def)
  ultimately show ?thesis ..
qed

theorem remainders_nonneg_witness:
  "is_double (5764607523034235 / 128) \<and> (0 :: rat) \<le> 5764607523034235 / 128
   \<and> (5764607523034235 / 128 :: rat) < 2 ^ 58
   \<and> holds remainders_nonneg (formatter_steps (Finite (5764607523034235 / 128)))
   \<and> holds (\<lambda>b. nonneg (seconds b)) (format_duration (Finite (5764607523034235 / 128)))"
proof -
  have b: "(0 :: rat) \<le> 5764607523034235 / 128" "(5764607523034235 / 128 :: rat) < 2 ^ 58"
    by simp_all
  show ?thesis
    using is_double_x_max b remainders_nonneg_below_2_58 [OF is_double_x_max b] by simp
qed

text \<open>
  The claim as stated, for every nonnegative finite input, fails at \<open>4.49 \<times> 10\<^sup>2\<^sup>1\<close> seconds:
  the rounded product \<^verbatim>\<open>years * seconds_per_year\<close> exceeds the input, \<^verbatim>\<open>remaining\<close> becomes
  \<open>-524288\<close> after the first subtraction and the seconds component is \<open>-8\<close>.
\<close>

theorem remainders_nonneg_counterexample:
  "is_double 4490000000000000000000 \<and> (0 :: rat) \<le> 4490000000000000000000
   \<and> formatter_steps (Finite 4490000000000000000000) =
       Inr ((142279514284990, Finite (- 524288)), (- 6, Finite (- 5888)),
            (- 1, Finite (- 2288)), (- 38, Finite (- 8)))
   \<and> \<not> holds remainders_nonneg (formatter_steps (Finite 4490000000000000000000))
   \<and> \<not> holds (\<lambda>b. nonneg (seconds b)) (format_duration (Finite 4490000000000000000000))"
  using is_double_C
  by (simp add: steps_C format_duration_def and_then_def holds_def remainders_nonneg_def)

section \<open>The unit ranges on every input below \<open>2\<^sup>5\<^sup>3\<close> years\<close>

text \<open>
  C10, as the program has it: for every nonnegative double input below \<open>2\<^sup>5\<^sup>3 \<times> 31557600\<close>
  seconds, that is \<open>2\<^sup>5\<^sup>3\<close> years or about \<open>2.84 \<times> 10\<^sup>2\<^sup>3\<close> seconds, the formatter returns a
  breakdown whose days are at most 365, hours at most 23, minutes at most 59 and seconds below
  60.
\<close>

theorem unit_ranges_below_2_53_years:
  assumes "is_double r" "0 \<le> r" "r < 2 ^ 53 * 31557600"
  shows "holds in_unit_ranges (format_duration (Finite r))"
proof -
  obtain y d h m s where "format_duration (Finite r) =
      Inr \<lparr>years = y, days = d, hours = h, minutes = m, seconds = Finite s\<rparr>"
    and "d \<le> 365" "h \<le> 23" "m \<le> 59" "s < 60"
    using format_duration_ranges [OF assms] by blast
  then show ?thesis by (simp add: holds_def in_unit_ranges_def)
qed

theorem unit_ranges_witness:
  "is_double 5000000000000000000 \<and> (0 :: rat) \<le> 5000000000000000000
   \<and> (5000000000000000000 :: rat) < 2 ^ 53 * 31557600
   \<and> holds in_unit_ranges (format_duration (Finite 5000000000000000000))"
proof -
  have b: "(0 :: rat) \<le> 5000000000000000000"
    "(5000000000000000000 :: rat) < 2 ^ 53 * 31557600" by simp_all
  show ?thesis
    using is_double_B b unit_ranges_below_2_53_years [OF is_double_B b] by simp
qed

text \<open>
  The claim as stated, for every nonnegative finite input, fails ten doubles above \<open>2\<^sup>5\<^sup>3\<close> years,
  at \<open>2\<^sup>5\<^sup>3 \<times> 31557600 + 10 \<times> 2\<^sup>2\<^sup>5 = 284245591201414664683520\<close> seconds: the quotient is rounded
  to an even number of years, the first subtraction leaves \<open>2\<^sup>2\<^sup>5\<close> seconds, more than 366 days,
  and the days component is 388.  It fails at \<open>2\<^sup>8\<^sup>0\<close> seconds too, where the first subtraction
  leaves \<open>2\<^sup>2\<^sup>7\<close> seconds and the days component is 1553.
\<close>

theorem unit_ranges_counterexample:
  "is_double 284245591201414664683520 \<and> (0 :: rat) \<le> 284245591201414664683520
   \<and> (284245591201414664683520 :: rat) = 2 ^ 53 * 31557600 + 10 * 2 ^ 25
   \<and> format_duration (Finite 284245591201414664683520) =
       Inr \<lparr>years = 9007199254741002, days = 388, hours = 8, minutes = 40,
            seconds = Finite 32\<rparr>
   \<and> \<not> holds in_unit_ranges (format_duration (Finite 284245591201414664683520))
   \<and> is_double 1208925819614629174706176 \<and> (0 :: rat) \<le> 1208925819614629174706176
   \<and> format_duration (Finite 1208925819614629174706176) =
       Inr \<lparr>years = 38308547532595288, days = 1553, hours = 10, minutes = 42,
            seconds = Finite 8\<rparr>
   \<and> \<not> holds in_unit_ranges (format_duration (Finite 1208925819614629174706176))"
  using is_double_D is_double_E
  by (simp add: steps_D steps_E format_duration_def and_then_def holds_def in_unit_ranges_def)

section \<open>The steps of the specification and the reconstruction below \<open>2\<^sup>5\<^sup>8\<close>\<close>

text \<open>
  C4, as the program has it: the divisors are \<open>365.25 \<times> 86400 = 31557600\<close>, \<open>86400\<close>, \<open>3600\<close> and
  \<open>60\<close>, and for every nonnegative double input below \<open>2\<^sup>5\<^sup>8\<close> seconds the program computes the
  steps of the specification: years, days, hours and minutes in this order, each count the floor
  of \<open>remaining / divisor\<close>, each new remainder \<open>remaining - count \<times> divisor\<close>, the last remainder
  the seconds component.
\<close>

theorem formatter_greedy_floor_below_2_58:
  assumes "is_double r" "0 \<le> r" "r < 2 ^ 58"
  shows "formatter_steps (Finite r) = Inr (as_steps (spec_steps r))
    \<and> format_duration (Finite r) = Inr (spec_breakdown r)
    \<and> seconds_per_year = Finite (36525 / 100 * 86400) \<and> seconds_per_year = Finite 31557600
    \<and> seconds_per_day = Finite 86400 \<and> seconds_per_hour = Finite 3600
    \<and> seconds_per_minute = Finite 60"
  using formatter_steps_exact [OF assms] format_duration_exact [OF assms]
  by (simp add: seconds_per_year_eq seconds_per_day_eq seconds_per_hour_eq seconds_per_minute_eq)

theorem formatter_greedy_floor_witness:
  "is_double (180123 / 2) \<and> (0 :: rat) \<le> 180123 / 2 \<and> (180123 / 2 :: rat) < 2 ^ 58
   \<and> formatter_steps (Finite (180123 / 2)) =
       Inr ((0, Finite (180123 / 2)), (1, Finite (7323 / 2)), (1, Finite (123 / 2)),
            (1, Finite (3 / 2)))
   \<and> format_duration (Finite (180123 / 2)) = Inr (spec_breakdown (180123 / 2))"
proof -
  have b: "(0 :: rat) \<le> 180123 / 2" "(180123 / 2 :: rat) < 2 ^ 58" by simp_all
  show ?thesis
    using is_double_90061 b formatter_greedy_floor_below_2_58 [OF is_double_90061 b]
    by (simp add: spec_steps_90061 as_steps_def)
qed

text \<open>
  The claim as stated fails at \<open>(2\<^sup>3\<^sup>4 + 1) \<times> 31557600 - 32\<close> seconds.  The quotient
  \<open>remaining / seconds_per_year\<close> rounds up to \<open>2\<^sup>3\<^sup>4 + 1\<close>, one more than its floor, and the product
  rounds up as well, so \<^verbatim>\<open>remaining\<close> becomes \<open>-64\<close>.  From there \<^verbatim>\<open>int\<close> truncates towards zero:
  the days are \<open>0\<close> where the floor of \<open>-64 / 86400\<close> is \<open>-1\<close>, and the minutes are \<open>-1\<close> where the
  floor of \<open>-64 / 60\<close> is \<open>-2\<close>.
\<close>

theorem formatter_greedy_floor_counterexample:
  "is_double 542155439792555968 \<and> (0 :: rat) \<le> 542155439792555968
   \<and> formatter_steps (Finite 542155439792555968) =
       Inr ((17179869185, Finite (- 64)), (0, Finite (- 64)), (0, Finite (- 64)),
            (- 1, Finite (- 4)))
   \<and> spec_steps 542155439792555968 =
       ((17179869184, 31557568), (365, 21568), (5, 3568), (59, 28))
   \<and> formatter_steps (Finite 542155439792555968) \<noteq> Inr (as_steps (spec_steps 542155439792555968))
   \<and> \<lfloor>- 64 / 86400 :: rat\<rfloor> = - 1 \<and> \<lfloor>- 64 / 60 :: rat\<rfloor> = - 2"
proof -
  have "\<lfloor>- 64 / 86400 :: rat\<rfloor> = - 1" by (rule floor_unique) simp_all
  moreover have "\<lfloor>- 64 / 60 :: rat\<rfloor> = - 2" by (rule floor_unique) simp_all
  ultimately show ?thesis
    using is_double_A by (simp add: steps_A spec_steps_A as_steps_def)
qed

text \<open>
  C2, as the program has it: for every nonnegative double input below \<open>2\<^sup>5\<^sup>8\<close> seconds the
  reconstruction \<open>years \<times> 31557600 + days \<times> 86400 + hours \<times> 3600 + minutes \<times> 60 + seconds\<close> is the
  input itself, and so within \<open>10\<^sup>-\<^sup>6\<close> of it; for an input below \<open>2\<^sup>5\<^sup>3\<close> this also holds when the
  reconstruction is evaluated in double arithmetic.
\<close>

theorem reconstruction_below_2_58:
  assumes "is_double r" "0 \<le> r" "r < 2 ^ 58"
  shows "holds (\<lambda>b. reconstruct b = Some r) (format_duration (Finite r))
    \<and> holds (\<lambda>b. within_tolerance (1 / 10 ^ 6) r (reconstruct b)) (format_duration (Finite r))
    \<and> (r < 2 ^ 53 \<longrightarrow> and_then (format_duration (Finite r)) reconstruct_float = Inr (Finite r))"
proof -
  obtain y r1 d r2 h r3 m r4 where st: "spec_steps r = ((y, r1), (d, r2), (h, r3), (m, r4))"
    by (metis prod.exhaust)
  note p = spec_steps_props [OF assms(2) st]
  have rc: "reconstruct (spec_breakdown r) = Some r"
    using p by (simp add: reconstruct_def spec_breakdown_def st)
  have "r < 2 ^ 53 \<longrightarrow> and_then (format_duration (Finite r)) reconstruct_float = Inr (Finite r)"
    using reconstruct_float_exact [OF assms(1,2)]
    by (simp add: format_duration_exact [OF assms] and_then_def)
  then show ?thesis
    using rc by (simp add: format_duration_exact [OF assms] holds_def within_tolerance_def)
qed

theorem reconstruction_witness:
  "is_double (5764607523034235 / 128) \<and> (0 :: rat) \<le> 5764607523034235 / 128
   \<and> (5764607523034235 / 128 :: rat) < 2 ^ 58 \<and> (5764607523034235 / 128 :: rat) < 2 ^ 53
   \<and> holds (\<lambda>b. reconstruct b = Some (5764607523034235 / 128))
       (format_duration (Finite (5764607523034235 / 128)))
   \<and> holds (\<lambda>b. within_tolerance (1 / 10 ^ 6) (5764607523034235 / 128) (reconstruct b))
       (format_duration (Finite (5764607523034235 / 128)))
   \<and> and_then (format_duration (Finite (5764607523034235 / 128))) reconstruct_float
       = Inr (Finite (5764607523034235 / 128))"
proof -
  have b: "(0 :: rat) \<le> 5764607523034235 / 128" "(5764607523034235 / 128 :: rat) < 2 ^ 58"
    and c: "(5764607523034235 / 128 :: rat) < 2 ^ 53"
    by simp_all
  show ?thesis
    using is_double_x_max b c reconstruction_below_2_58 [OF is_double_x_max b] by simp
qed

text \<open>
  The claim as stated fails at \<open>5 \<times> 10\<^sup>1\<^sup>8\<close> seconds: the breakdown is 158440439070 years,
  52 days, 20 hours, 54 minutes and 24 seconds, whose exact sum is 64 seconds more than the
  input, and whose sum in double arithmetic is 1024 seconds less.
\<close>

theorem reconstruction_counterexample:
  "is_double 5000000000000000000 \<and> (0 :: rat) \<le> 5000000000000000000
   \<and> format_duration (Finite 5000000000000000000) =
       Inr \<lparr>years = 158440439070, days = 52, hours = 20, minutes = 54, seconds = Finite 24\<rparr>
   \<and> reconstruct \<lparr>years = 158440439070, days = 52, hours = 20, minutes = 54,
       seconds = Finite 24\<rparr> = Some (5000000000000000000 + 64)
   \<and> \<not> holds (\<lambda>b. within_tolerance (1 / 10 ^ 6) 5000000000000000000 (reconstruct b))
       (format_duration (Finite 5000000000000000000))
   \<and> and_then (format_duration (Finite 5000000000000000000)) reconstruct_float
       = Inr (Finite (5000000000000000000 - 1024))
   \<and> \<not> holds (float_within (1 / 10 ^ 6) 5000000000000000000)
       (and_then (format_duration (Finite 5000000000000000000)) reconstruct_float)"
proof -
  have f: "format_duration (Finite 5000000000000000000) =
       Inr \<lparr>years = 158440439070, days = 52, hours = 20, minutes = 54, seconds = Finite 24\<rparr>"
    by (simp add: steps_B format_duration_def and_then_def)
  show ?thesis
    using is_double_B
    by (simp add: f recon_float_B and_then_def holds_def within_tolerance_def reconstruct_def)
qed

section \<open>The spacing at smaller magnitudes\<close>

lemma spacing_at_le:
  assumes dbl: "is_double x" and x0: "0 \<le> x" and xb: "x \<le> 5764607523034235 / 128"
  shows "\<exists>sp. spacing_at (Finite x) = Finite sp \<and> sp \<le> 1 / 128"
proof -
  define s where "s = nearest (x * (1 / 2 ^ 52))"
  define nv where "nv = nearest (x + s)"
  define sp where "sp = nearest (nv + - x)"
  have x60: "x < 2 ^ 46" using xb by simp
  have p: "\<bar>x * (1 / 2 ^ 52)\<bar> < 1" using x0 x60 by simp
  then have a: "round_double (x * (1 / 2 ^ 52)) = Finite s"
    unfolding s_def by (intro round_double_small) simp
  have "\<bar>s\<bar> \<le> 2 * \<bar>x * (1 / 2 ^ 52)\<bar> + 1" unfolding s_def by (rule nearest_crude)
  with p have sb: "\<bar>s\<bar> < 3" by linarith
  have zb: "\<bar>x + s\<bar> < 2 ^ 47" using x0 x60 sb by simp
  then have b: "round_double (x + s) = Finite nv"
    unfolding nv_def by (intro round_double_small) simp
  have "\<bar>nv\<bar> \<le> 2 * \<bar>x + s\<bar> + 1" unfolding nv_def by (rule nearest_crude)
  with zb have nb: "\<bar>nv\<bar> < 2 ^ 49" by simp
  have "\<bar>nv + - x\<bar> < 2 ^ 50" using nb x0 x60 by simp
  then have c: "round_double (nv + - x) = Finite sp"
    unfolding sp_def by (intro round_double_small) simp
  have gap: "nv - x \<le> 1 / 128"
  proof -
    consider "x < 2 ^ 44" | "2 ^ 44 \<le> x" "x < 2 ^ 45" | "2 ^ 45 \<le> x" by linarith
    then show ?thesis
    proof cases
      case 1
      then show ?thesis unfolding nv_def s_def using x0 by (intro gap_low)
    next
      case 2
      then show ?thesis unfolding nv_def s_def using dbl by (intro gap_mid)
    next
      case 3
      then show ?thesis unfolding nv_def s_def using dbl xb by (intro gap_high)
    qed
  qed
  have "is_double (1 / 128)" by (rule is_doubleI [where m = 1 and e = "- 7"]) simp_all
  moreover have "nv + - x \<le> 1 / 128" using gap by simp
  ultimately have "sp \<le> 1 / 128" unfolding sp_def by (intro nearest_le_double) simp_all
  moreover have "spacing_at (Finite x) = Finite sp"
    by (simp only: spacing_at_def next_value_at_def epsilon_def fsub_def fmul.simps fadd.simps
        fneg.simps a b c)
  ultimately show ?thesis by blast
qed

lemma spacing_at_lt:
  assumes dbl: "is_double x" and x0: "0 \<le> x" and xb: "x < 26388279066624"
  shows "\<exists>sp. spacing_at (Finite x) = Finite sp \<and> sp < 1 / 128"
proof -
  define s where "s = nearest (x * (1 / 2 ^ 52))"
  define nv where "nv = nearest (x + s)"
  define sp where "sp = nearest (nv + - x)"
  have x60: "x < 2 ^ 46" using xb by simp
  have p: "\<bar>x * (1 / 2 ^ 52)\<bar> < 1" using x0 x60 by simp
  then have a: "round_double (x * (1 / 2 ^ 52)) = Finite s"
    unfolding s_def by (intro round_double_small) simp
  have "\<bar>s\<bar> \<le> 2 * \<bar>x * (1 / 2 ^ 52)\<bar> + 1" unfolding s_def by (rule nearest_crude)
  with p have sb: "\<bar>s\<bar> < 3" by linarith
  have zb: "\<bar>x + s\<bar> < 2 ^ 47" using x0 x60 sb by simp
  then have b: "round_double (x + s) = Finite nv"
    unfolding nv_def by (intro round_double_small) simp
  have "\<bar>nv\<bar> \<le> 2 * \<bar>x + s\<bar> + 1" unfolding nv_def by (rule nearest_crude)
  with zb have nb: "\<bar>nv\<bar> < 2 ^ 49" by simp
  have "\<bar>nv + - x\<bar> < 2 ^ 50" using nb x0 x60 by simp
  then have c: "round_double (nv + - x) = Finite sp"
    unfolding sp_def by (intro round_double_small) simp
  have gap: "nv - x \<le> 3 / 512"
  proof (cases "x < 2 ^ 44")
    case True
    then show ?thesis unfolding nv_def s_def using x0 by (intro gap_low_strict)
  next
    case False
    then have "2 ^ 44 \<le> x" by simp
    then have "nv - x \<le> 1 / 256" unfolding nv_def s_def using dbl xb by (intro gap_mid_strict)
    then show ?thesis by simp
  qed
  have "is_double (3 / 512)" by (rule is_doubleI [where m = 3 and e = "- 9"]) simp_all
  moreover have "nv + - x \<le> 3 / 512" using gap by simp
  ultimately have "sp \<le> 3 / 512" unfolding sp_def by (intro nearest_le_double) simp_all
  then have "sp < 1 / 128" by simp
  moreover have "spacing_at (Finite x) = Finite sp"
    by (simp only: spacing_at_def next_value_at_def epsilon_def fsub_def fmul.simps fadd.simps
        fneg.simps a b c)
  ultimately show ?thesis by blast
qed

text \<open>
  The bound \<open>1.5 \<times> 2\<^sup>4\<^sup>4\<close> of the preceding lemma cannot be raised: at \<open>1.5 \<times> 2\<^sup>4\<^sup>4 = 26388279066624\<close>
  the sum \<open>x + x \<times> epsilon\<close> lies halfway between two doubles and is rounded up, so that the
  spacing measured there is \<open>2\<^sup>-\<^sup>7\<close> already.
\<close>

lemma spacing_at_three_halves_2_44:
  "spacing_at (Finite 26388279066624) = Finite (1 / 128)"
  using spacing_at_3_2_43 by simp

text \<open>
  C8, as the program has it: the spacing measured at \<^verbatim>\<open>max_time_seconds\<close> is greater than or
  equal to the spacing measured the same way, \<open>(x + x \<times> epsilon) - x\<close>, at every nonnegative double
  \<open>x\<close> up to \<^verbatim>\<open>max_time_seconds\<close>, and it is strictly greater than the spacing measured at every
  nonnegative double \<open>x\<close> below \<open>1.5 \<times> 2\<^sup>4\<^sup>4 = 26388279066624\<close> (so at every one below \<open>2\<^sup>4\<^sup>4\<close>).
\<close>

theorem spacing_at_max_time_largest:
  assumes "is_double x" "0 \<le> x" "holds (fle (Finite x)) max_time_seconds"
  shows "holds (fle (spacing_at (Finite x))) spacing
    \<and> (x < 26388279066624 \<longrightarrow> holds (flt (spacing_at (Finite x))) spacing)"
proof -
  have sp: "spacing = Inr (Finite (1 / 128))"
    using spacing_at_x_max by (simp add: spacing_def max_time_seconds_eq and_then_def)
  have "x \<le> 5764607523034235 / 128"
    using assms(3) by (simp add: max_time_seconds_eq holds_def)
  then obtain a where "spacing_at (Finite x) = Finite a" "a \<le> 1 / 128"
    using spacing_at_le [OF assms(1,2)] by blast
  then have le: "holds (fle (spacing_at (Finite x))) spacing"
    by (simp add: sp holds_def)
  have "holds (flt (spacing_at (Finite x))) spacing" if lt: "x < 26388279066624"
  proof -
    obtain b where "spacing_at (Finite x) = Finite b" "b < 1 / 128"
      using spacing_at_lt [OF assms(1,2) lt] by blast
    then show ?thesis by (simp add: sp holds_def)
  qed
  with le show ?thesis by blast
qed

theorem spacing_at_max_time_largest_witness:
  "is_double (180123 / 2) \<and> (0 :: rat) \<le> 180123 / 2
   \<and> holds (fle (Finite (180123 / 2))) max_time_seconds
   \<and> (180123 / 2 :: rat) < 26388279066624
   \<and> holds (fle (spacing_at (Finite (180123 / 2)))) spacing
   \<and> holds (flt (spacing_at (Finite (180123 / 2)))) spacing"
proof -
  have b: "(0 :: rat) \<le> 180123 / 2" by simp
  have c: "holds (fle (Finite (180123 / 2))) max_time_seconds"
    by (simp add: max_time_seconds_eq holds_def)
  have d: "(180123 / 2 :: rat) < 26388279066624" by simp
  show ?thesis
    using is_double_90061 b c d spacing_at_max_time_largest [OF is_double_90061 b c] by blast
qed

text \<open>
  The claim as stated, strictly greater at every smaller magnitude, fails at \<open>2\<^sup>4\<^sup>5\<close> seconds,
  which is smaller than \<^verbatim>\<open>max_time_seconds\<close> and lies in the same binade: the spacing measured
  there is \<open>2\<^sup>-\<^sup>7\<close> too.
\<close>

theorem spacing_strictly_largest_counterexample:
  "is_double 35184372088832 \<and> (0 :: rat) \<le> 35184372088832
   \<and> holds (flt (Finite 35184372088832)) max_time_seconds
   \<and> spacing_at (Finite 35184372088832) = Finite (1 / 128)
   \<and> spacing = Inr (Finite (1 / 128))
   \<and> \<not> holds (flt (spacing_at (Finite 35184372088832))) spacing"
  using is_double_2_45 spacing_at_2_45 spacing_at_x_max
  by (simp add: spacing_def max_time_seconds_eq and_then_def holds_def)

end
